theory Spec2Isabelle
  imports Main "HOL-Library.AList"
begin

section \<open>Python string helpers used by validate-plan.py\<close>

text \<open>
  Strings are lists of 8-bit characters. The helpers below follow the Python string
  methods on the ASCII range: \<open>str.strip()\<close>, \<open>str.strip(chars)\<close>, \<open>str.split(sep)\<close>,
  \<open>str.lower()\<close>, \<open>sep.join(xs)\<close> and \<open>str(int)\<close>.
\<close>

definition is_space :: "char \<Rightarrow> bool" where
  "is_space c = (let n = (of_char c :: nat) in (9 \<le> n \<and> n \<le> 13) \<or> (28 \<le> n \<and> n \<le> 32))"

definition strip_chars :: "(char \<Rightarrow> bool) \<Rightarrow> string \<Rightarrow> string" where
  "strip_chars p s = rev (dropWhile p (rev (dropWhile p s)))"

definition strip :: "string \<Rightarrow> string" where
  "strip s = strip_chars is_space s"

definition strip_backticks :: "string \<Rightarrow> string" where
  "strip_backticks s = strip_chars (\<lambda>c. c = CHR 0x60) s"

fun split_on :: "char \<Rightarrow> string \<Rightarrow> string list" where
  "split_on sep [] = [[]]"
| "split_on sep (c # cs) =
     (if c = sep then [] # split_on sep cs
      else (case split_on sep cs of
              [] \<Rightarrow> [[c]]
            | w # ws \<Rightarrow> (c # w) # ws))"

definition lower_char :: "char \<Rightarrow> char" where
  "lower_char c =
     (let n = (of_char c :: nat) in if 65 \<le> n \<and> n \<le> 90 then char_of (n + 32) else c)"

definition lower :: "string \<Rightarrow> string" where
  "lower s = map lower_char s"

fun join :: "string \<Rightarrow> string list \<Rightarrow> string" where
  "join sep [] = []"
| "join sep [x] = x"
| "join sep (x # y # ys) = x @ sep @ join sep (y # ys)"

definition digit_char :: "nat \<Rightarrow> char" where
  "digit_char d = char_of (48 + d)"

fun str_nat :: "nat \<Rightarrow> string" where
  "str_nat n = (if n < 10 then [digit_char n] else str_nat (n div 10) @ [digit_char (n mod 10)])"

declare str_nat.simps [simp del]

definition str_int :: "int \<Rightarrow> string" where
  "str_int i = (if i < 0 then CHR ''-'' # str_nat (nat (- i)) else str_nat (nat i))"

section \<open>Data model\<close>

text \<open>
  A parsed task is the dictionary built at the end of the loop body of
  \<open>parse_task_plan\<close>; a finding is one of the dictionaries appended to \<open>issues\<close> or
  \<open>warnings\<close>; the validation result is the dictionary returned by \<open>validate_tasks\<close>.
\<close>

record task_record =
  num :: int
  title :: string
  files :: "string list"
  file_count :: nat
  preconditions :: "int list"
  done_when :: string
  complexity :: string
  parallel :: string
  has_steps :: bool

record finding =
  task :: int
  rule :: string
  severity :: string
  message :: string

record validation_result =
  total_tasks :: nat
  errors :: nat
  warnings :: nat
  issues :: "finding list"
  warnings_list :: "finding list"
  passed :: bool

datatype error = ValueError | IndexError | OutOfFuel

definition VALID_COMPLEXITIES :: "string set" where
  "VALID_COMPLEXITIES = {''trivial'', ''small'', ''medium'', ''large''}"

text \<open>
  \<open>', '.join(VALID_COMPLEXITIES)\<close> iterates a Python set of strings. The order of that
  iteration is not fixed by the program text (string hashes are salted per interpreter
  process), so the validator takes it as the parameter \<open>vc_order\<close>: some enumeration of
  the four labels.
\<close>

definition is_iteration_order :: "string list \<Rightarrow> bool" where
  "is_iteration_order vc_order = (distinct vc_order \<and> set vc_order = VALID_COMPLEXITIES)"

section \<open>Parser: field post-processing of parse_task_plan\<close>

text \<open>
  The regular-expression searches of \<open>parse_task_plan\<close> deliver, for each task block,
  the header groups and the optional captured group of each labelled field. A
  \<open>block\<close> holds these search results; \<open>task_of_block\<close> is the rest of the loop body.
\<close>

record block =
  num_group :: int
  title_group :: string
  files_match :: "string option"
  preconditions_match :: "string option"
  done_match :: "string option"
  complexity_match :: "string option"
  parallel_match :: "string option"
  steps_match :: bool

definition parse_files :: "string option \<Rightarrow> string list" where
  "parse_files m =
     (let files_str = (case m of Some g \<Rightarrow> strip g | None \<Rightarrow> [])
      in if files_str \<noteq> [] then map (\<lambda>f. strip_backticks (strip f)) (split_on CHR '','' files_str)
         else [])"

definition is_digit :: "char \<Rightarrow> bool" where
  "is_digit c = (let n = (of_char c :: nat) in 48 \<le> n \<and> n \<le> 57)"

definition digit_val :: "char \<Rightarrow> nat" where
  "digit_val c = of_char c - 48"

definition int_of_digits :: "string \<Rightarrow> int" where
  "int_of_digits ds = int (foldl (\<lambda>acc c. 10 * acc + digit_val c) 0 ds)"

text \<open>
  One attempt of the pattern \<open>Task\s+(\d+)\<close> at the start of \<open>s\<close>: the literal
  \<open>Task\<close>, a non-empty run of whitespace, a non-empty maximal run of digits. The
  result is the captured integer and the text after the match.
\<close>

definition match_task_ref :: "string \<Rightarrow> (int \<times> string) option" where
  "match_task_ref s =
     (if take 4 s = ''Task'' then
        (let r = drop 4 s; ws = takeWhile is_space r; r' = dropWhile is_space r;
             ds = takeWhile is_digit r'
         in if ws \<noteq> [] \<and> ds \<noteq> [] then Some (int_of_digits ds, dropWhile is_digit r') else None)
      else None)"

lemma match_task_ref_shorter:
  "match_task_ref s = Some (n, rest) \<Longrightarrow> length rest < length s"
proof -
  assume a: "match_task_ref s = Some (n, rest)"
  then have t: "take 4 s = ''Task''"
    by (auto simp: match_task_ref_def split: if_splits)
  then have "length (take 4 s) = 4"
    by simp
  then have l: "4 \<le> length s"
    by simp
  from a t have "rest = dropWhile is_digit (dropWhile is_space (drop 4 s))"
    by (auto simp: match_task_ref_def Let_def split: if_splits)
  then have "length rest \<le> length (drop 4 s)"
    by (metis length_dropWhile_le order_trans)
  with l show ?thesis by simp
qed

text \<open>\<open>re.findall(r"Task\s+(\d+)", s)\<close>: scan left to right, resume after each match.\<close>

function findall_task_refs :: "string \<Rightarrow> int list" where
  "findall_task_refs [] = []"
| "findall_task_refs (c # cs) =
     (case match_task_ref (c # cs) of
        Some (n, rest) \<Rightarrow> n # findall_task_refs rest
      | None \<Rightarrow> findall_task_refs cs)"
  by pat_completeness auto
termination
  by (relation "measure length") (auto dest: match_task_ref_shorter)

definition parse_preconditions :: "string option \<Rightarrow> int list" where
  "parse_preconditions m =
     (let preconditions_str = (case m of Some g \<Rightarrow> strip g | None \<Rightarrow> ''none'')
      in if lower preconditions_str \<noteq> ''none'' then findall_task_refs preconditions_str
         else [])"

definition task_of_block :: "block \<Rightarrow> task_record" where
  "task_of_block b =
     (let file_list = parse_files (files_match b);
          precondition_ids = parse_preconditions (preconditions_match b)
      in \<lparr> num = num_group b,
           title = strip (title_group b),
           files = file_list,
           file_count = length file_list,
           preconditions = precondition_ids,
           done_when = (case done_match b of Some g \<Rightarrow> strip g | None \<Rightarrow> []),
           complexity = (case complexity_match b of Some g \<Rightarrow> lower g | None \<Rightarrow> []),
           parallel = (case parallel_match b of Some g \<Rightarrow> strip g | None \<Rightarrow> []),
           has_steps = steps_match b \<rparr>)"

definition parse_blocks :: "block list \<Rightarrow> task_record list" where
  "parse_blocks bs = map task_of_block bs"

section \<open>Validator: per-task rules of validate_tasks\<close>

definition atomic_scope_issue :: "task_record \<Rightarrow> finding" where
  "atomic_scope_issue t =
     \<lparr> task = num t, rule = ''atomic_scope'', severity = ''error'',
       message = ''Task '' @ str_int (num t) @ '': Touches '' @ str_nat (file_count t)
                 @ '' files (max 3). Split this task.'' \<rparr>"

definition verifiable_issue :: "task_record \<Rightarrow> finding" where
  "verifiable_issue t =
     \<lparr> task = num t, rule = ''verifiable'', severity = ''error'',
       message = ''Task '' @ str_int (num t) @ '': Missing '' @ [CHR 0x27] @ ''Done when''
                 @ [CHR 0x27] @ '' verification command.'' \<rparr>"

definition verifiable_warning :: "task_record \<Rightarrow> finding" where
  "verifiable_warning t =
     \<lparr> task = num t, rule = ''verifiable'', severity = ''warning'',
       message = ''Task '' @ str_int (num t) @ '': '' @ [CHR 0x27] @ ''Done when'' @ [CHR 0x27]
                 @ '' is placeholder ('' @ done_when t @ ''). Needs a concrete command.'' \<rparr>"

definition steps_warning :: "task_record \<Rightarrow> finding" where
  "steps_warning t =
     \<lparr> task = num t, rule = ''steps'', severity = ''warning'',
       message = ''Task '' @ str_int (num t) @ '': No steps found. Add concrete action steps.'' \<rparr>"

definition preconditions_issue :: "task_record \<Rightarrow> int \<Rightarrow> finding" where
  "preconditions_issue t dep =
     \<lparr> task = num t, rule = ''preconditions'', severity = ''error'',
       message = ''Task '' @ str_int (num t) @ '': References Task '' @ str_int dep
                 @ '' which does not exist.'' \<rparr>"

definition complexity_issue :: "task_record \<Rightarrow> finding" where
  "complexity_issue t =
     \<lparr> task = num t, rule = ''complexity'', severity = ''error'',
       message = ''Task '' @ str_int (num t) @ '': Missing complexity sizing.'' \<rparr>"

definition complexity_warning :: "string list \<Rightarrow> task_record \<Rightarrow> finding" where
  "complexity_warning vc_order t =
     \<lparr> task = num t, rule = ''complexity'', severity = ''warning'',
       message = ''Task '' @ str_int (num t) @ '': Complexity '' @ [CHR 0x27] @ complexity t
                 @ [CHR 0x27] @ '' not standard. Use: '' @ join '', '' vc_order \<rparr>"

definition files_warning :: "task_record \<Rightarrow> finding" where
  "files_warning t =
     \<lparr> task = num t, rule = ''files'', severity = ''warning'',
       message = ''Task '' @ str_int (num t) @ '': No files listed.'' \<rparr>"

text \<open>
  The body of the loop \<open>for task in tasks\<close>: the pair holds the two lists \<open>issues\<close>
  and \<open>warnings\<close> the body appends to.
\<close>

definition check_task ::
  "int set \<Rightarrow> string list \<Rightarrow> task_record \<Rightarrow> finding list \<times> finding list
     \<Rightarrow> finding list \<times> finding list" where
  "check_task task_nums vc_order t acc =
     (let (issues, warnings) = acc;
          issues = (if file_count t > 3 then issues @ [atomic_scope_issue t] else issues);
          (issues, warnings) =
            (if done_when t = [] then (issues @ [verifiable_issue t], warnings)
             else if lower (done_when t) \<in> set [''tbd'', ''todo'', ''n/a'']
                  then (issues, warnings @ [verifiable_warning t])
             else (issues, warnings));
          warnings = (if \<not> has_steps t then warnings @ [steps_warning t] else warnings);
          issues = foldl (\<lambda>issues dep.
                     if dep \<notin> task_nums then issues @ [preconditions_issue t dep] else issues)
                     issues (preconditions t);
          (issues, warnings) =
            (if complexity t = [] then (issues @ [complexity_issue t], warnings)
             else if complexity t \<notin> VALID_COMPLEXITIES
                  then (issues, warnings @ [complexity_warning vc_order t])
             else (issues, warnings));
          warnings = (if files t = [] \<or> files t = [[]] then warnings @ [files_warning t]
                      else warnings)
      in (issues, warnings))"

section \<open>Cycle detection: detect_cycles\<close>

text \<open>
  The dictionary \<open>graph\<close> keeps its keys in insertion order; a later task with the same
  number replaces the value and keeps the key's place, as \<open>AList.update\<close> does.
\<close>

type_synonym graph = "(int \<times> int list) list"

definition build_graph :: "task_record list \<Rightarrow> graph" where
  "build_graph tasks = foldl (\<lambda>g t. AList.update (num t) (preconditions t) g) [] tasks"

definition graph_get :: "graph \<Rightarrow> int \<Rightarrow> int list" where
  "graph_get g node = (case map_of g node of Some ds \<Rightarrow> ds | None \<Rightarrow> [])"

text \<open>
  The variables shared by the nested function \<open>dfs\<close>: the sets \<open>visited\<close> and
  \<open>rec_stack\<close>, the list \<open>cycles\<close>, and the one list object \<open>path\<close> every nested call
  appends to and pops from. \<open>calls\<close> is a ghost counter of the invocations of \<open>dfs\<close>:
  the source has no such variable and nothing reads it.
\<close>

record dfs_state =
  visited :: "int set"
  rec_stack :: "int set"
  cycles :: "int list list"
  path :: "int list"
  calls :: nat

text \<open>\<open>path.index(x)\<close>: the first position of \<open>x\<close>, ValueError when absent.\<close>

fun index_of :: "int \<Rightarrow> int list \<Rightarrow> nat option" where
  "index_of x [] = None"
| "index_of x (y # ys) = (if x = y then Some 0 else map_option Suc (index_of x ys))"

text \<open>
  \<open>dfs\<close> and its loop over the neighbours. The first argument after the graph is the
  recursion depth still available: a call with depth 0 gives \<open>OutOfFuel\<close>.
\<close>

fun dfs :: "graph \<Rightarrow> nat \<Rightarrow> int \<Rightarrow> dfs_state \<Rightarrow> error + dfs_state"
  and dfs_neighbors :: "graph \<Rightarrow> nat \<Rightarrow> int list \<Rightarrow> dfs_state \<Rightarrow> error + dfs_state" where
  "dfs g 0 node st = Inl OutOfFuel"
| "dfs g (Suc n) node st =
     (case dfs_neighbors g n (graph_get g node)
             (st\<lparr> visited := insert node (visited st),
                  rec_stack := insert node (rec_stack st),
                  path := path st @ [node],
                  calls := Suc (calls st) \<rparr>) of
        Inl e \<Rightarrow> Inl e
      | Inr st' \<Rightarrow>
          (if path st' = [] then Inl IndexError
           else Inr (st'\<lparr> path := butlast (path st'), rec_stack := rec_stack st' - {node} \<rparr>)))"
| "dfs_neighbors g n [] st = Inr st"
| "dfs_neighbors g n (neighbor # rest) st =
     (if neighbor \<notin> visited st then
        (case dfs g n neighbor st of
           Inl e \<Rightarrow> Inl e
         | Inr st' \<Rightarrow> dfs_neighbors g n rest st')
      else if neighbor \<in> rec_stack st then
        (case index_of neighbor (path st) of
           None \<Rightarrow> Inl ValueError
         | Some cycle_start \<Rightarrow>
             dfs_neighbors g n rest
               (st\<lparr> cycles := cycles st @ [drop cycle_start (path st) @ [neighbor]] \<rparr>))
      else dfs_neighbors g n rest st)"

text \<open>The loop \<open>for task_num in graph\<close>; each root call gets a fresh empty \<open>path\<close>.\<close>

fun dfs_roots :: "graph \<Rightarrow> nat \<Rightarrow> int list \<Rightarrow> dfs_state \<Rightarrow> error + dfs_state" where
  "dfs_roots g fuel [] st = Inr st"
| "dfs_roots g fuel (task_num # rest) st =
     (if task_num \<notin> visited st then
        (case dfs g fuel task_num (st\<lparr> path := [] \<rparr>) of
           Inl e \<Rightarrow> Inl e
         | Inr st' \<Rightarrow> dfs_roots g fuel rest st')
      else dfs_roots g fuel rest st)"

definition dfs_init :: dfs_state where
  "dfs_init = \<lparr> visited = {}, rec_stack = {}, cycles = [], path = [], calls = 0 \<rparr>"

definition detect_cycles_run :: "nat \<Rightarrow> task_record list \<Rightarrow> error + dfs_state" where
  "detect_cycles_run fuel tasks =
     (let graph = build_graph tasks in dfs_roots graph fuel (map fst graph) dfs_init)"

definition detect_cycles :: "nat \<Rightarrow> task_record list \<Rightarrow> error + int list list" where
  "detect_cycles fuel tasks =
     (case detect_cycles_run fuel tasks of Inl e \<Rightarrow> Inl e | Inr st \<Rightarrow> Inr (cycles st))"

section \<open>Validator: validate_tasks\<close>

definition cycle_issue :: "int \<Rightarrow> int list \<Rightarrow> finding" where
  "cycle_issue first cycle =
     \<lparr> task = first, rule = ''acyclic'', severity = ''error'',
       message = ''Circular dependency detected: ''
                 @ join '' -> '' (map (\<lambda>t. ''Task '' @ str_int t) cycle) \<rparr>"

text \<open>
  The loop \<open>for cycle in cycles\<close>, appending to \<open>issues\<close> (here \<open>acc\<close>);
  \<open>cycle[0]\<close> raises IndexError on an empty list.
\<close>

fun cycle_issues :: "int list list \<Rightarrow> finding list \<Rightarrow> error + finding list" where
  "cycle_issues [] acc = Inr acc"
| "cycle_issues (cycle # rest) acc =
     (case cycle of
        [] \<Rightarrow> Inl IndexError
      | first # _ \<Rightarrow> cycle_issues rest (acc @ [cycle_issue first cycle]))"

definition validate_tasks ::
  "nat \<Rightarrow> string list \<Rightarrow> task_record list \<Rightarrow> error + validation_result" where
  "validate_tasks fuel vc_order tasks =
     (let task_nums = set (map num tasks);
          (issues, warnings) =
            foldl (\<lambda>acc t. check_task task_nums vc_order t acc) ([], []) tasks
      in case detect_cycles fuel tasks of
           Inl e \<Rightarrow> Inl e
         | Inr found \<Rightarrow>
             (case cycle_issues found issues of
                Inl e \<Rightarrow> Inl e
              | Inr all_issues \<Rightarrow>
                  Inr \<lparr> total_tasks = length tasks,
                        errors = length all_issues,
                        warnings = length warnings,
                        issues = all_issues,
                        warnings_list = warnings,
                        passed = (length all_issues = 0) \<rparr>))"

section \<open>Definitions used in the proofs\<close>

text \<open>
  \<open>roots_inv\<close> is the invariant of the loop over the roots. \<open>all_nodes\<close> lists the
  numbers the traversal can reach, every task number and every referenced number, and
  \<open>node_count\<close> counts them. \<open>task_issues\<close> and \<open>task_warnings\<close> list what one
  run of the validator's loop body appends, \<open>base_issues\<close> and \<open>base_warnings\<close> what
  the whole loop appends.
\<close>

definition roots_inv :: "int set \<Rightarrow> dfs_state \<Rightarrow> bool" where
  "roots_inv N st = (rec_stack st = {} \<and> finite (visited st) \<and> visited st \<subseteq> N \<and>
      calls st = card (visited st))"

definition all_nodes :: "task_record list \<Rightarrow> int list" where
  "all_nodes tasks = remdups (concat (map (\<lambda>t. num t # preconditions t) tasks))"

definition node_count :: "task_record list \<Rightarrow> nat" where
  "node_count tasks = length (all_nodes tasks)"

definition task_issues :: "int set \<Rightarrow> task_record \<Rightarrow> finding list" where
  "task_issues task_nums t =
     (if file_count t > 3 then [atomic_scope_issue t] else []) @
     (if done_when t = [] then [verifiable_issue t] else []) @
     map (preconditions_issue t) (filter (\<lambda>dep. dep \<notin> task_nums) (preconditions t)) @
     (if complexity t = [] then [complexity_issue t] else [])"

definition task_warnings :: "string list \<Rightarrow> task_record \<Rightarrow> finding list" where
  "task_warnings vc_order t =
     (if done_when t \<noteq> [] \<and> lower (done_when t) \<in> set [''tbd'', ''todo'', ''n/a'']
      then [verifiable_warning t] else []) @
     (if \<not> has_steps t then [steps_warning t] else []) @
     (if complexity t \<noteq> [] \<and> complexity t \<notin> VALID_COMPLEXITIES
      then [complexity_warning vc_order t] else []) @
     (if files t = [] \<or> files t = [[]] then [files_warning t] else [])"

definition base_issues :: "task_record list \<Rightarrow> finding list" where
  "base_issues tasks = concat (map (task_issues (set (map num tasks))) tasks)"

definition base_warnings :: "string list \<Rightarrow> task_record list \<Rightarrow> finding list" where
  "base_warnings vc_order tasks = concat (map (task_warnings vc_order) tasks)"

text \<open>
  Concrete inputs used to instantiate the theorems. \<open>vc_order_src\<close> lists the labels in
  the order of the set literal; \<open>vc_order_other\<close> is another enumeration of the same set.
\<close>

definition vc_order_src :: "string list" where
  "vc_order_src = [''trivial'', ''small'', ''medium'', ''large'']"

definition plain_task :: "int \<Rightarrow> int list \<Rightarrow> task_record" where
  "plain_task n deps =
     \<lparr> num = n, title = ''t'', files = [''a.py''], file_count = 1, preconditions = deps,
       done_when = ''pytest'', complexity = ''small'', parallel = [], has_steps = True \<rparr>"

definition scenario_block :: block where
  "scenario_block =
     \<lparr> num_group = 1, title_group = ''Widen the parser'',
       files_match = Some ''a.py, b.py, c.py, d.py'',
       preconditions_match = Some ''none'',
       done_match = Some ''tests pass'',
       complexity_match = Some ''small'',
       parallel_match = None,
       steps_match = False \<rparr>"

definition scenario_task :: task_record where
  "scenario_task =
     \<lparr> num = 1, title = ''Widen the parser'', files = [''a.py'', ''b.py'', ''c.py'', ''d.py''],
       file_count = 4, preconditions = [], done_when = ''tests pass'', complexity = ''small'',
       parallel = [], has_steps = False \<rparr>"

definition failing_task :: task_record where
  "failing_task =
     \<lparr> num = 1, title = ''Everything at once'',
       files = [''a.py'', ''b.py'', ''c.py'', ''d.py''], file_count = 4,
       preconditions = [9], done_when = [], complexity = [], parallel = [],
       has_steps = False \<rparr>"

definition huge_task :: task_record where
  "huge_task =
     \<lparr> num = 1, title = ''Rewrite the importer'', files = [''a.py''], file_count = 1,
       preconditions = [], done_when = ''pytest'', complexity = ''huge'', parallel = [],
       has_steps = True \<rparr>"

definition vc_order_other :: "string list" where
  "vc_order_other = [''small'', ''large'', ''trivial'', ''medium'']"



text \<open>
  A linear chain in document order: the first task has no precondition, every later
  task has the number of the task before it as its one precondition, and the numbers
  are distinct. \<open>position\<close> is the place of a number in a list.
\<close>

fun chain_from :: "int \<Rightarrow> task_record list \<Rightarrow> bool" where
  "chain_from prev [] = True"
| "chain_from prev (t # ts) = (preconditions t = [prev] \<and> chain_from (num t) ts)"

definition is_linear_chain :: "task_record list \<Rightarrow> bool" where
  "is_linear_chain tasks =
     (distinct (map num tasks) \<and>
      (case tasks of [] \<Rightarrow> True | t # ts \<Rightarrow> preconditions t = [] \<and> chain_from (num t) ts))"

definition position :: "int list \<Rightarrow> int \<Rightarrow> nat" where
  "position xs k = length (takeWhile (\<lambda>x. x \<noteq> k) xs)"

section \<open>Properties of the traversal\<close>

lemma dfs_frame:
  "dfs g n node st = Inr st' \<Longrightarrow> rec_stack st \<subseteq> visited st \<Longrightarrow>
     path st' = path st \<and> rec_stack st' = rec_stack st - {node} \<and>
     visited st \<subseteq> visited st' \<and> node \<in> visited st'"
  and dfs_neighbors_frame:
  "dfs_neighbors g n nbs st = Inr st' \<Longrightarrow> rec_stack st \<subseteq> visited st \<Longrightarrow>
     path st' = path st \<and> rec_stack st' = rec_stack st \<and> visited st \<subseteq> visited st'"
proof (induction g n node st and g n nbs st arbitrary: st' and st' rule: dfs_dfs_neighbors.induct)
  case (1 g node st)
  then show ?case by simp
next
  case (2 g n node st)
  let ?st1 = "st\<lparr> visited := insert node (visited st), rec_stack := insert node (rec_stack st),
                  path := path st @ [node], calls := Suc (calls st) \<rparr>"
  from "2.prems"(1) obtain st2 where
    l: "dfs_neighbors g n (graph_get g node) ?st1 = Inr st2" and
    ne: "path st2 \<noteq> []" and
    e: "st' = st2\<lparr> path := butlast (path st2), rec_stack := rec_stack st2 - {node} \<rparr>"
    by (auto split: sum.splits if_splits)
  have "rec_stack ?st1 \<subseteq> visited ?st1" using "2.prems"(2) by auto
  from "2.IH"[OF l this] e show ?case by auto
next
  case (3 g n st)
  then show ?case by simp
next
  case (4 g n neighbor rest st)
  show ?case
  proof (cases "neighbor \<in> visited st")
    case False
    with "4.prems"(1) obtain st1 where
      d: "dfs g n neighbor st = Inr st1" and l: "dfs_neighbors g n rest st1 = Inr st'"
      by (auto split: sum.splits)
    from "4.IH"(1)[OF False d "4.prems"(2)] have
      f1: "path st1 = path st" "rec_stack st1 = rec_stack st - {neighbor}"
          "visited st \<subseteq> visited st1" by auto
    from False "4.prems"(2) have "neighbor \<notin> rec_stack st" by auto
    with f1 have f2: "rec_stack st1 = rec_stack st" by auto
    with f1 "4.prems"(2) have "rec_stack st1 \<subseteq> visited st1" by auto
    from "4.IH"(2)[OF False d l this] f1 f2 show ?thesis by auto
  next
    case True
    show ?thesis
    proof (cases "neighbor \<in> rec_stack st")
      case False
      with True "4.prems"(1) have l: "dfs_neighbors g n rest st = Inr st'" by simp
      from "4.IH"(4)[OF _ False l "4.prems"(2)] True show ?thesis by simp
    next
      case T2: True
      with True "4.prems"(1) obtain i where
        i: "index_of neighbor (path st) = Some i" and
        l: "dfs_neighbors g n rest (st\<lparr> cycles := cycles st @ [drop i (path st) @ [neighbor]] \<rparr>) = Inr st'"
        by (auto split: option.splits)
      from "4.IH"(3)[OF _ T2 i l] True "4.prems"(2) show ?thesis by simp
    qed
  qed
qed

lemma index_of_Some: "x \<in> set xs \<Longrightarrow> \<exists>i. index_of x xs = Some i"
  by (induction xs) auto

lemma dfs_returns:
  "rec_stack st = set (path st) \<Longrightarrow> rec_stack st \<subseteq> visited st \<Longrightarrow> finite N \<Longrightarrow>
   \<forall>u. set (graph_get g u) \<subseteq> N \<Longrightarrow> node \<in> N \<Longrightarrow> node \<notin> visited st \<Longrightarrow>
   card (N - visited st) \<le> n \<Longrightarrow> \<exists>st'. dfs g n node st = Inr st'"
  and dfs_neighbors_returns:
  "rec_stack st = set (path st) \<Longrightarrow> rec_stack st \<subseteq> visited st \<Longrightarrow> finite N \<Longrightarrow>
   \<forall>u. set (graph_get g u) \<subseteq> N \<Longrightarrow> set nbs \<subseteq> N \<Longrightarrow>
   card (N - visited st) \<le> n \<Longrightarrow> \<exists>st'. dfs_neighbors g n nbs st = Inr st'"
proof (induction g n node st and g n nbs st rule: dfs_dfs_neighbors.induct)
  case (1 g node st)
  then have "N - visited st = {}" by simp
  with 1 show ?case by auto
next
  case (2 g n node st)
  let ?st1 = "st\<lparr> visited := insert node (visited st), rec_stack := insert node (rec_stack st),
                  path := path st @ [node], calls := Suc (calls st) \<rparr>"
  have a: "rec_stack ?st1 = set (path ?st1)" "rec_stack ?st1 \<subseteq> visited ?st1"
    using "2.prems" by auto
  have "N - visited ?st1 = (N - visited st) - {node}" by auto
  moreover have "node \<in> N - visited st" using "2.prems" by simp
  moreover have "finite (N - visited st)" using "2.prems" by simp
  ultimately have "card (N - visited ?st1) < card (N - visited st)"
    by (metis card_Diff1_less)
  with "2.prems" have c: "card (N - visited ?st1) \<le> n" by simp
  have s: "set (graph_get g node) \<subseteq> N" using "2.prems" by blast
  from "2.IH"[OF a "2.prems"(3,4) s c] obtain st2 where
    l: "dfs_neighbors g n (graph_get g node) ?st1 = Inr st2" by blast
  from dfs_neighbors_frame[OF l a(2)] have "path st2 \<noteq> []" by simp
  with l show ?case by simp
next
  case (3 g n st)
  then show ?case by simp
next
  case (4 g n neighbor rest st)
  have r: "set rest \<subseteq> N" and nN: "neighbor \<in> N" using "4.prems" by auto
  show ?case
  proof (cases "neighbor \<in> visited st")
    case False
    from "4.IH"(1)[OF False "4.prems"(1,2,3,4) nN False "4.prems"(6)] obtain st1 where
      d: "dfs g n neighbor st = Inr st1" by blast
    from False "4.prems"(2) have nr: "neighbor \<notin> rec_stack st" by auto
    from dfs_frame[OF d "4.prems"(2)] nr have
      f: "path st1 = path st" "rec_stack st1 = rec_stack st" "visited st \<subseteq> visited st1" by auto
    have a: "rec_stack st1 = set (path st1)" "rec_stack st1 \<subseteq> visited st1"
      using f "4.prems"(1,2) by auto
    have "N - visited st1 \<subseteq> N - visited st" using f by auto
    then have "card (N - visited st1) \<le> card (N - visited st)"
      using "4.prems"(3) by (simp add: card_mono)
    with "4.prems"(6) have c: "card (N - visited st1) \<le> n" by simp
    from "4.IH"(2)[OF False d a "4.prems"(3,4) r c] False d show ?thesis by simp
  next
    case True
    show ?thesis
    proof (cases "neighbor \<in> rec_stack st")
      case False
      from "4.IH"(4)[OF _ False "4.prems"(1,2,3,4) r "4.prems"(6)] True False
      show ?thesis by simp
    next
      case T2: True
      with "4.prems"(1) obtain i where i: "index_of neighbor (path st) = Some i"
        using index_of_Some by blast
      let ?st1 = "st\<lparr> cycles := cycles st @ [drop i (path st) @ [neighbor]] \<rparr>"
      have "\<exists>st'. dfs_neighbors g n rest ?st1 = Inr st'"
        using "4.IH"(3)[OF _ T2 i] True "4.prems" r by simp
      with True T2 i show ?thesis by simp
    qed
  qed
qed

lemma dfs_only_fuel:
  "rec_stack st = set (path st) \<Longrightarrow> rec_stack st \<subseteq> visited st \<Longrightarrow>
   dfs g n node st = Inl e \<Longrightarrow> e = OutOfFuel"
  and dfs_neighbors_only_fuel:
  "rec_stack st = set (path st) \<Longrightarrow> rec_stack st \<subseteq> visited st \<Longrightarrow>
   dfs_neighbors g n nbs st = Inl e \<Longrightarrow> e = OutOfFuel"
proof (induction g n node st and g n nbs st rule: dfs_dfs_neighbors.induct)
  case (1 g node st)
  then show ?case by simp
next
  case (2 g n node st)
  let ?st1 = "st\<lparr> visited := insert node (visited st), rec_stack := insert node (rec_stack st),
                  path := path st @ [node], calls := Suc (calls st) \<rparr>"
  have a: "rec_stack ?st1 = set (path ?st1)" "rec_stack ?st1 \<subseteq> visited ?st1"
    using "2.prems" by auto
  show ?case
  proof (cases "dfs_neighbors g n (graph_get g node) ?st1")
    case (Inl e')
    with "2.prems"(3) have "e' = e" by simp
    with "2.IH"[OF a] Inl show ?thesis by simp
  next
    case (Inr st2)
    from dfs_neighbors_frame[OF Inr a(2)] have "path st2 \<noteq> []" by simp
    with Inr "2.prems"(3) show ?thesis by simp
  qed
next
  case (3 g n st)
  then show ?case by simp
next
  case (4 g n neighbor rest st)
  show ?case
  proof (cases "neighbor \<in> visited st")
    case False
    show ?thesis
    proof (cases "dfs g n neighbor st")
      case (Inl e')
      with False "4.prems"(3) have "e' = e" by simp
      with "4.IH"(1)[OF False "4.prems"(1,2)] Inl show ?thesis by simp
    next
      case (Inr st1)
      from False "4.prems"(2) have nr: "neighbor \<notin> rec_stack st" by auto
      from dfs_frame[OF Inr "4.prems"(2)] nr have
        f: "path st1 = path st" "rec_stack st1 = rec_stack st" "visited st \<subseteq> visited st1" by auto
      have a: "rec_stack st1 = set (path st1)" "rec_stack st1 \<subseteq> visited st1"
        using f "4.prems"(1,2) by auto
      from False Inr "4.prems"(3) have "dfs_neighbors g n rest st1 = Inl e" by simp
      from "4.IH"(2)[OF False Inr a this] show ?thesis .
    qed
  next
    case True
    show ?thesis
    proof (cases "neighbor \<in> rec_stack st")
      case False
      with True "4.prems"(3) have "dfs_neighbors g n rest st = Inl e" by simp
      from "4.IH"(4)[OF _ False "4.prems"(1,2) this] True show ?thesis by simp
    next
      case T2: True
      with "4.prems"(1) obtain i where i: "index_of neighbor (path st) = Some i"
        using index_of_Some by blast
      let ?st1 = "st\<lparr> cycles := cycles st @ [drop i (path st) @ [neighbor]] \<rparr>"
      from True T2 i "4.prems"(3) have "dfs_neighbors g n rest ?st1 = Inl e" by simp
      from "4.IH"(3)[OF _ T2 i _ _ this] True "4.prems"(1,2) show ?thesis by simp
    qed
  qed
qed

lemma dfs_no_cycle:
  "dfs g n node st = Inr st' \<Longrightarrow> rec_stack st = set (path st) \<Longrightarrow>
   rec_stack st \<subseteq> visited st \<Longrightarrow>
   \<forall>u. \<forall>d\<in>set (graph_get g u). rank d < (rank u :: nat) \<Longrightarrow>
   \<forall>x\<in>set (path st). rank node < rank x \<Longrightarrow>
   cycles st' = cycles st"
  and dfs_neighbors_no_cycle:
  "dfs_neighbors g n nbs st = Inr st' \<Longrightarrow> rec_stack st = set (path st) \<Longrightarrow>
   rec_stack st \<subseteq> visited st \<Longrightarrow>
   \<forall>u. \<forall>d\<in>set (graph_get g u). rank d < (rank u :: nat) \<Longrightarrow>
   \<forall>nb\<in>set nbs. \<forall>x\<in>set (path st). rank nb < rank x \<Longrightarrow>
   cycles st' = cycles st"
proof (induction g n node st and g n nbs st arbitrary: st' and st' rule: dfs_dfs_neighbors.induct)
  case (1 g node st)
  then show ?case by simp
next
  case (2 g n node st)
  let ?st1 = "st\<lparr> visited := insert node (visited st), rec_stack := insert node (rec_stack st),
                  path := path st @ [node], calls := Suc (calls st) \<rparr>"
  from "2.prems"(1) obtain st2 where
    l: "dfs_neighbors g n (graph_get g node) ?st1 = Inr st2" and
    e: "st' = st2\<lparr> path := butlast (path st2), rec_stack := rec_stack st2 - {node} \<rparr>"
    by (auto split: sum.splits if_splits)
  have a: "rec_stack ?st1 = set (path ?st1)" "rec_stack ?st1 \<subseteq> visited ?st1"
    using "2.prems" by auto
  have "\<forall>nb\<in>set (graph_get g node). rank nb < rank node" using "2.prems"(4) by blast
  with "2.prems"(5) have r: "\<forall>nb\<in>set (graph_get g node). \<forall>x\<in>set (path ?st1). rank nb < rank x"
    by fastforce
  from "2.IH"[OF l a "2.prems"(4) r] e show ?case by simp
next
  case (3 g n st)
  then show ?case by simp
next
  case (4 g n neighbor rest st)
  have r: "\<forall>nb\<in>set rest. \<forall>x\<in>set (path st). rank nb < rank x" using "4.prems"(5) by simp
  show ?case
  proof (cases "neighbor \<in> visited st")
    case False
    with "4.prems"(1) obtain st1 where
      d: "dfs g n neighbor st = Inr st1" and l: "dfs_neighbors g n rest st1 = Inr st'"
      by (auto split: sum.splits)
    from False "4.prems"(3) have nr: "neighbor \<notin> rec_stack st" by auto
    from dfs_frame[OF d "4.prems"(3)] nr have
      f: "path st1 = path st" "rec_stack st1 = rec_stack st" "visited st \<subseteq> visited st1" by auto
    have a: "rec_stack st1 = set (path st1)" "rec_stack st1 \<subseteq> visited st1"
      using f "4.prems"(2,3) by auto
    have "\<forall>x\<in>set (path st). rank neighbor < rank x" using "4.prems"(5) by simp
    from "4.IH"(1)[OF False d "4.prems"(2,3,4) this] have c1: "cycles st1 = cycles st" .
    from r f have r1: "\<forall>nb\<in>set rest. \<forall>x\<in>set (path st1). rank nb < rank x" by simp
    from "4.IH"(2)[OF False d l a "4.prems"(4) r1] c1 show ?thesis by simp
  next
    case True
    have "neighbor \<notin> rec_stack st"
    proof
      assume "neighbor \<in> rec_stack st"
      with "4.prems"(2) have "neighbor \<in> set (path st)" by simp
      with "4.prems"(5) have "rank neighbor < rank neighbor" by auto
      then show False by simp
    qed
    with True "4.prems"(1) have l: "dfs_neighbors g n rest st = Inr st'" by simp
    from "4.IH"(4)[OF _ \<open>neighbor \<notin> rec_stack st\<close> l "4.prems"(2,3,4) r] True
    show ?thesis by simp
  qed
qed

lemma dfs_calls:
  "dfs g n node st = Inr st' \<Longrightarrow> rec_stack st \<subseteq> visited st \<Longrightarrow> finite (visited st) \<Longrightarrow>
   \<forall>u. set (graph_get g u) \<subseteq> N \<Longrightarrow> node \<notin> visited st \<Longrightarrow>
   finite (visited st') \<and> calls st' + card (visited st) = calls st + card (visited st') \<and>
   visited st' \<subseteq> insert node (visited st \<union> N)"
  and dfs_neighbors_calls:
  "dfs_neighbors g n nbs st = Inr st' \<Longrightarrow> rec_stack st \<subseteq> visited st \<Longrightarrow>
   finite (visited st) \<Longrightarrow> \<forall>u. set (graph_get g u) \<subseteq> N \<Longrightarrow> set nbs \<subseteq> N \<Longrightarrow>
   finite (visited st') \<and> calls st' + card (visited st) = calls st + card (visited st') \<and>
   visited st' \<subseteq> visited st \<union> N"
proof (induction g n node st and g n nbs st arbitrary: st' and st' rule: dfs_dfs_neighbors.induct)
  case (1 g node st)
  then show ?case by simp
next
  case (2 g n node st)
  let ?st1 = "st\<lparr> visited := insert node (visited st), rec_stack := insert node (rec_stack st),
                  path := path st @ [node], calls := Suc (calls st) \<rparr>"
  from "2.prems"(1) obtain st2 where
    l: "dfs_neighbors g n (graph_get g node) ?st1 = Inr st2" and
    e: "st' = st2\<lparr> path := butlast (path st2), rec_stack := rec_stack st2 - {node} \<rparr>"
    by (auto split: sum.splits if_splits)
  have a: "rec_stack ?st1 \<subseteq> visited ?st1" "finite (visited ?st1)"
    using "2.prems" by auto
  have s: "set (graph_get g node) \<subseteq> N" using "2.prems"(4) by blast
  from "2.IH"[OF l a "2.prems"(4) s] have
    i: "finite (visited st2)"
       "calls st2 + card (visited ?st1) = calls ?st1 + card (visited st2)"
       "visited st2 \<subseteq> visited ?st1 \<union> N" by auto
  have "card (visited ?st1) = Suc (card (visited st))"
    using "2.prems"(3,5) by simp
  with i e show ?case by auto
next
  case (3 g n st)
  then show ?case by simp
next
  case (4 g n neighbor rest st)
  have r: "set rest \<subseteq> N" and nN: "neighbor \<in> N" using "4.prems" by auto
  show ?case
  proof (cases "neighbor \<in> visited st")
    case False
    with "4.prems"(1) obtain st1 where
      d: "dfs g n neighbor st = Inr st1" and l: "dfs_neighbors g n rest st1 = Inr st'"
      by (auto split: sum.splits)
    from False "4.prems"(2) have nr: "neighbor \<notin> rec_stack st" by auto
    from dfs_frame[OF d "4.prems"(2)] nr have
      f: "rec_stack st1 = rec_stack st" "visited st \<subseteq> visited st1" by auto
    from "4.IH"(1)[OF False d "4.prems"(2,3,4) False] have
      i1: "finite (visited st1)"
          "calls st1 + card (visited st) = calls st + card (visited st1)"
          "visited st1 \<subseteq> insert neighbor (visited st \<union> N)" by auto
    have a: "rec_stack st1 \<subseteq> visited st1" using f "4.prems"(2) by auto
    from "4.IH"(2)[OF False d l a i1(1) "4.prems"(4) r] have
      i2: "finite (visited st')"
          "calls st' + card (visited st1) = calls st1 + card (visited st')"
          "visited st' \<subseteq> visited st1 \<union> N" by auto
    from i1 i2 nN show ?thesis by auto
  next
    case True
    show ?thesis
    proof (cases "neighbor \<in> rec_stack st")
      case False
      with True "4.prems"(1) have l: "dfs_neighbors g n rest st = Inr st'" by simp
      from "4.IH"(4)[OF _ False l "4.prems"(2,3,4) r] True show ?thesis by simp
    next
      case T2: True
      with True "4.prems"(1) obtain i where
        i: "index_of neighbor (path st) = Some i" and
        l: "dfs_neighbors g n rest (st\<lparr> cycles := cycles st @ [drop i (path st) @ [neighbor]] \<rparr>) = Inr st'"
        by (auto split: option.splits)
      from "4.IH"(3)[OF _ T2 i l] True "4.prems"(2,3,4) r show ?thesis by simp
    qed
  qed
qed

lemma dfs_roots_inv:
  "dfs_roots g fuel ks st = Inr st' \<Longrightarrow> roots_inv N st \<Longrightarrow>
   \<forall>u. set (graph_get g u) \<subseteq> N \<Longrightarrow> set ks \<subseteq> N \<Longrightarrow>
   roots_inv N st' \<and> visited st \<subseteq> visited st' \<and> set ks \<subseteq> visited st'"
proof (induction ks arbitrary: st)
  case Nil
  then show ?case by simp
next
  case (Cons k ks)
  show ?case
  proof (cases "k \<in> visited st")
    case True
    with Cons.prems(1) have l: "dfs_roots g fuel ks st = Inr st'" by simp
    from Cons.IH[OF l Cons.prems(2,3)] Cons.prems(4) True show ?thesis by auto
  next
    case False
    let ?st0 = "st\<lparr> path := [] \<rparr>"
    from False Cons.prems(1) obtain st1 where
      d: "dfs g fuel k ?st0 = Inr st1" and l: "dfs_roots g fuel ks st1 = Inr st'"
      by (auto split: sum.splits)
    have a: "rec_stack ?st0 \<subseteq> visited ?st0" "finite (visited ?st0)" "k \<notin> visited ?st0"
      using Cons.prems(2) False by (auto simp: roots_inv_def)
    from dfs_frame[OF d a(1)] have
      f: "rec_stack st1 = rec_stack ?st0 - {k}" "visited ?st0 \<subseteq> visited st1" "k \<in> visited st1"
      by auto
    from dfs_calls[OF d a(1,2) Cons.prems(3) a(3)] have
      c: "finite (visited st1)"
         "calls st1 + card (visited ?st0) = calls ?st0 + card (visited st1)"
         "visited st1 \<subseteq> insert k (visited ?st0 \<union> N)" by auto
    have "roots_inv N st1"
      using f c Cons.prems(2,4) by (auto simp: roots_inv_def)
    from Cons.IH[OF l this Cons.prems(3)] Cons.prems(4) f show ?thesis by auto
  qed
qed

lemma dfs_roots_returns:
  "roots_inv N st \<Longrightarrow> finite N \<Longrightarrow> \<forall>u. set (graph_get g u) \<subseteq> N \<Longrightarrow> set ks \<subseteq> N \<Longrightarrow>
   card N \<le> fuel \<Longrightarrow> \<exists>st'. dfs_roots g fuel ks st = Inr st'"
proof (induction ks arbitrary: st)
  case Nil
  then show ?case by simp
next
  case (Cons k ks)
  show ?case
  proof (cases "k \<in> visited st")
    case True
    with Cons.IH[OF Cons.prems(1,2,3) _ Cons.prems(5)] Cons.prems(4) show ?thesis by simp
  next
    case False
    let ?st0 = "st\<lparr> path := [] \<rparr>"
    have a: "rec_stack ?st0 = set (path ?st0)" "rec_stack ?st0 \<subseteq> visited ?st0"
      using Cons.prems(1) by (auto simp: roots_inv_def)
    have kN: "k \<in> N" using Cons.prems(4) by simp
    have "card (N - visited ?st0) \<le> card N" using Cons.prems(2) by (simp add: card_mono)
    with Cons.prems(5) have c: "card (N - visited ?st0) \<le> fuel" by simp
    have kv: "k \<notin> visited ?st0" using False by simp
    from dfs_returns[OF a Cons.prems(2,3) kN kv c] obtain st1 where
      d: "dfs g fuel k ?st0 = Inr st1" by blast
    have "dfs_roots g fuel [k] st = Inr st1" using False d by simp
    from dfs_roots_inv[OF this Cons.prems(1,3)] kN have "roots_inv N st1" by simp
    from Cons.IH[OF this Cons.prems(2,3) _ Cons.prems(5)] Cons.prems(4) False d
    show ?thesis by simp
  qed
qed

lemma dfs_roots_only_fuel:
  "roots_inv N st \<Longrightarrow> \<forall>u. set (graph_get g u) \<subseteq> N \<Longrightarrow> set ks \<subseteq> N \<Longrightarrow>
   dfs_roots g fuel ks st = Inl e \<Longrightarrow> e = OutOfFuel"
proof (induction ks arbitrary: st)
  case Nil
  then show ?case by simp
next
  case (Cons k ks)
  show ?case
  proof (cases "k \<in> visited st")
    case True
    with Cons.prems(4) have "dfs_roots g fuel ks st = Inl e" by simp
    from Cons.IH[OF Cons.prems(1,2) _ this] Cons.prems(3) show ?thesis by simp
  next
    case False
    let ?st0 = "st\<lparr> path := [] \<rparr>"
    have a: "rec_stack ?st0 = set (path ?st0)" "rec_stack ?st0 \<subseteq> visited ?st0"
      using Cons.prems(1) by (auto simp: roots_inv_def)
    show ?thesis
    proof (cases "dfs g fuel k ?st0")
      case (Inl e')
      with False Cons.prems(4) have "e' = e" by simp
      with dfs_only_fuel[OF a] Inl show ?thesis by simp
    next
      case (Inr st1)
      have "dfs_roots g fuel [k] st = Inr st1" using False Inr by simp
      from dfs_roots_inv[OF this Cons.prems(1,2)] Cons.prems(3) have i: "roots_inv N st1" by simp
      from False Inr Cons.prems(4) have "dfs_roots g fuel ks st1 = Inl e" by simp
      from Cons.IH[OF i Cons.prems(2) _ this] Cons.prems(3) show ?thesis by simp
    qed
  qed
qed

lemma dfs_roots_no_cycle:
  "dfs_roots g fuel ks st = Inr st' \<Longrightarrow> roots_inv N st \<Longrightarrow>
   \<forall>u. set (graph_get g u) \<subseteq> N \<Longrightarrow> set ks \<subseteq> N \<Longrightarrow>
   \<forall>u. \<forall>d\<in>set (graph_get g u). rank d < (rank u :: nat) \<Longrightarrow>
   cycles st' = cycles st"
proof (induction ks arbitrary: st)
  case Nil
  then show ?case by simp
next
  case (Cons k ks)
  show ?case
  proof (cases "k \<in> visited st")
    case True
    with Cons.prems(1) have l: "dfs_roots g fuel ks st = Inr st'" by simp
    from Cons.IH[OF l Cons.prems(2,3) _ Cons.prems(5)] Cons.prems(4) show ?thesis by simp
  next
    case False
    let ?st0 = "st\<lparr> path := [] \<rparr>"
    from False Cons.prems(1) obtain st1 where
      d: "dfs g fuel k ?st0 = Inr st1" and l: "dfs_roots g fuel ks st1 = Inr st'"
      by (auto split: sum.splits)
    have a: "rec_stack ?st0 = set (path ?st0)" "rec_stack ?st0 \<subseteq> visited ?st0"
      using Cons.prems(2) by (auto simp: roots_inv_def)
    have "\<forall>x\<in>set (path ?st0). rank k < rank x" by simp
    from dfs_no_cycle[OF d a Cons.prems(5) this] have c: "cycles st1 = cycles st" by simp
    have "dfs_roots g fuel [k] st = Inr st1" using False d by simp
    from dfs_roots_inv[OF this Cons.prems(2,3)] Cons.prems(4) have i: "roots_inv N st1" by simp
    from Cons.IH[OF l i Cons.prems(3) _ Cons.prems(5)] Cons.prems(4) c show ?thesis by simp
  qed
qed

lemma foldl_update_map_of:
  "map_of (foldl (\<lambda>g t. AList.update (num t) (preconditions t) g) g0 ts) k = Some ds \<Longrightarrow>
   map_of g0 k = Some ds \<or> (\<exists>t\<in>set ts. num t = k \<and> preconditions t = ds)"
proof (induction ts arbitrary: g0)
  case Nil
  then show ?case by simp
next
  case (Cons t ts)
  from Cons.IH[of "AList.update (num t) (preconditions t) g0"] Cons.prems
  show ?case by (auto simp: update_conv' split: if_splits)
qed

lemma foldl_update_keys:
  "fst ` set (foldl (\<lambda>g t. AList.update (num t) (preconditions t) g) g0 ts) =
   fst ` set g0 \<union> num ` set ts"
  by (induction ts arbitrary: g0) (auto simp: dom_update)

lemma build_graph_get:
  "d \<in> set (graph_get (build_graph tasks) u) \<Longrightarrow>
   \<exists>t\<in>set tasks. num t = u \<and> d \<in> set (preconditions t)"
proof -
  assume a: "d \<in> set (graph_get (build_graph tasks) u)"
  then obtain ds where m: "map_of (build_graph tasks) u = Some ds" and d: "d \<in> set ds"
    by (cases "map_of (build_graph tasks) u") (auto simp: graph_get_def)
  from foldl_update_map_of[OF m[unfolded build_graph_def]] d show ?thesis by auto
qed

lemma build_graph_keys: "fst ` set (build_graph tasks) = num ` set tasks"
  using foldl_update_keys[of "[]" tasks] by (simp add: build_graph_def)

lemma set_all_nodes:
  "set (all_nodes tasks) = num ` set tasks \<union> (\<Union>t\<in>set tasks. set (preconditions t))"
  by (auto simp: all_nodes_def)

lemma graph_get_in_nodes: "set (graph_get (build_graph tasks) u) \<subseteq> set (all_nodes tasks)"
  using build_graph_get by (fastforce simp: set_all_nodes)

lemma keys_in_nodes: "fst ` set (build_graph tasks) \<subseteq> set (all_nodes tasks)"
  by (simp add: build_graph_keys set_all_nodes)

lemma node_count_card: "node_count tasks = card (set (all_nodes tasks))"
proof -
  have "distinct (all_nodes tasks)" by (simp add: all_nodes_def)
  then show ?thesis by (simp add: node_count_def distinct_card)
qed

lemma roots_inv_init: "roots_inv N dfs_init"
  by (simp add: roots_inv_def dfs_init_def)

lemma detect_cycles_run_returns:
  "node_count tasks \<le> fuel \<Longrightarrow> \<exists>st. detect_cycles_run fuel tasks = Inr st"
  unfolding detect_cycles_run_def Let_def
  by (rule dfs_roots_returns[where N = "set (all_nodes tasks)"])
     (simp_all add: roots_inv_init graph_get_in_nodes keys_in_nodes node_count_card)

lemma detect_cycles_run_only_fuel:
  "detect_cycles_run fuel tasks = Inl e \<Longrightarrow> e = OutOfFuel"
  unfolding detect_cycles_run_def Let_def
  by (rule dfs_roots_only_fuel[where N = "set (all_nodes tasks)"])
     (simp_all add: roots_inv_init graph_get_in_nodes keys_in_nodes)

lemma detect_cycles_run_inv:
  "detect_cycles_run fuel tasks = Inr st \<Longrightarrow>
   roots_inv (set (all_nodes tasks)) st \<and> num ` set tasks \<subseteq> visited st"
proof -
  assume a: "detect_cycles_run fuel tasks = Inr st"
  have "roots_inv (set (all_nodes tasks)) st \<and> visited dfs_init \<subseteq> visited st \<and>
        set (map fst (build_graph tasks)) \<subseteq> visited st"
    by (rule dfs_roots_inv[OF a[unfolded detect_cycles_run_def Let_def]])
       (simp_all add: roots_inv_init graph_get_in_nodes keys_in_nodes)
  then show ?thesis by (simp add: build_graph_keys)
qed

lemma detect_cycles_run_no_cycle:
  assumes "detect_cycles_run fuel tasks = Inr st"
    and "\<forall>t\<in>set tasks. \<forall>d\<in>set (preconditions t). rank d < (rank (num t) :: nat)"
  shows "cycles st = []"
proof -
  have r: "\<forall>u. \<forall>d\<in>set (graph_get (build_graph tasks) u). rank d < rank u"
    using build_graph_get assms(2) by blast
  have "cycles st = cycles dfs_init"
    by (rule dfs_roots_no_cycle[OF assms(1)[unfolded detect_cycles_run_def Let_def], where N = "set (all_nodes tasks)" and rank = rank])
       (simp_all add: roots_inv_init graph_get_in_nodes keys_in_nodes r)
  then show ?thesis by (simp add: dfs_init_def)
qed

lemma foldl_preconditions:
  "foldl (\<lambda>acc dep. if dep \<notin> tn then acc @ [f dep] else acc) acc0 ds =
   acc0 @ map f (filter (\<lambda>dep. dep \<notin> tn) ds)"
  by (induction ds arbitrary: acc0) auto

lemma check_task_eq:
  "check_task tn ord t (is0, ws0) = (is0 @ task_issues tn t, ws0 @ task_warnings ord t)"
  by (simp add: check_task_def task_issues_def task_warnings_def foldl_preconditions Let_def)

lemma foldl_check_task:
  "foldl (\<lambda>acc t. check_task tn ord t acc) (is0, ws0) ts =
   (is0 @ concat (map (task_issues tn) ts), ws0 @ concat (map (task_warnings ord) ts))"
  by (induction ts arbitrary: is0 ws0) (simp_all add: check_task_eq)

lemma cycle_issues_eq:
  "[] \<notin> set cs \<Longrightarrow> cycle_issues cs acc = Inr (acc @ map (\<lambda>c. cycle_issue (hd c) c) cs)"
proof (induction cs arbitrary: acc)
  case Nil
  then show ?case by simp
next
  case (Cons c cs)
  then show ?case by (cases c) auto
qed

lemma dfs_cycles_nonempty:
  "dfs g n node st = Inr st' \<Longrightarrow> [] \<notin> set (cycles st) \<Longrightarrow> [] \<notin> set (cycles st')"
  and dfs_neighbors_cycles_nonempty:
  "dfs_neighbors g n nbs st = Inr st' \<Longrightarrow> [] \<notin> set (cycles st) \<Longrightarrow> [] \<notin> set (cycles st')"
proof (induction g n node st and g n nbs st arbitrary: st' and st' rule: dfs_dfs_neighbors.induct)
  case (1 g node st)
  then show ?case by simp
next
  case (2 g n node st)
  then show ?case by (auto split: sum.splits if_splits)
next
  case (3 g n st)
  then show ?case by simp
next
  case (4 g n neighbor rest st)
  show ?case
  proof (cases "neighbor \<in> visited st")
    case False
    with "4.prems"(1) obtain st1 where
      d: "dfs g n neighbor st = Inr st1" and l: "dfs_neighbors g n rest st1 = Inr st'"
      by (auto split: sum.splits)
    from "4.IH"(2)[OF False d l "4.IH"(1)[OF False d "4.prems"(2)]] show ?thesis .
  next
    case True
    show ?thesis
    proof (cases "neighbor \<in> rec_stack st")
      case False
      with True "4.prems"(1) have l: "dfs_neighbors g n rest st = Inr st'" by simp
      from "4.IH"(4)[OF _ False l "4.prems"(2)] True show ?thesis by simp
    next
      case T2: True
      with True "4.prems"(1) obtain i where
        i: "index_of neighbor (path st) = Some i" and
        l: "dfs_neighbors g n rest (st\<lparr> cycles := cycles st @ [drop i (path st) @ [neighbor]] \<rparr>) = Inr st'"
        by (auto split: option.splits)
      from "4.IH"(3)[OF _ T2 i l] True "4.prems"(2) show ?thesis by simp
    qed
  qed
qed

lemma dfs_roots_cycles_nonempty:
  "dfs_roots g fuel ks st = Inr st' \<Longrightarrow> [] \<notin> set (cycles st) \<Longrightarrow> [] \<notin> set (cycles st')"
proof (induction ks arbitrary: st)
  case Nil
  then show ?case by simp
next
  case (Cons k ks)
  show ?case
  proof (cases "k \<in> visited st")
    case True
    with Cons show ?thesis by simp
  next
    case False
    from False Cons.prems(1) obtain st1 where
      d: "dfs g fuel k (st\<lparr> path := [] \<rparr>) = Inr st1" and l: "dfs_roots g fuel ks st1 = Inr st'"
      by (auto split: sum.splits)
    from dfs_cycles_nonempty[OF d] Cons.prems(2) have "[] \<notin> set (cycles st1)" by simp
    from Cons.IH[OF l this] show ?thesis .
  qed
qed

lemma detect_cycles_nonempty:
  "detect_cycles fuel tasks = Inr cs \<Longrightarrow> [] \<notin> set cs"
proof -
  assume a: "detect_cycles fuel tasks = Inr cs"
  then obtain st where r: "detect_cycles_run fuel tasks = Inr st" and c: "cs = cycles st"
    by (auto simp: detect_cycles_def split: sum.splits)
  from dfs_roots_cycles_nonempty[OF r[unfolded detect_cycles_run_def Let_def]] c
  show ?thesis by (simp add: dfs_init_def)
qed

lemma validate_tasks_Inr:
  "validate_tasks fuel ord tasks = Inr r \<longleftrightarrow>
   (\<exists>cs. detect_cycles fuel tasks = Inr cs \<and>
     r = \<lparr> total_tasks = length tasks,
           errors = length (base_issues tasks @ map (\<lambda>c. cycle_issue (hd c) c) cs),
           warnings = length (base_warnings ord tasks),
           issues = base_issues tasks @ map (\<lambda>c. cycle_issue (hd c) c) cs,
           warnings_list = base_warnings ord tasks,
           passed = (length (base_issues tasks @ map (\<lambda>c. cycle_issue (hd c) c) cs) = 0) \<rparr>)"
proof (cases "detect_cycles fuel tasks")
  case (Inl e)
  then show ?thesis by (simp add: validate_tasks_def foldl_check_task Let_def)
next
  case (Inr cs)
  from detect_cycles_nonempty[OF Inr] have "[] \<notin> set cs" .
  from cycle_issues_eq[OF this] Inr show ?thesis
    by (auto simp: validate_tasks_def foldl_check_task Let_def base_issues_def base_warnings_def)
qed

lemma validate_tasks_Inl:
  "validate_tasks fuel ord tasks = Inl e \<longleftrightarrow> detect_cycles fuel tasks = Inl e"
proof (cases "detect_cycles fuel tasks")
  case (Inl e')
  then show ?thesis by (simp add: validate_tasks_def foldl_check_task Let_def)
next
  case (Inr cs)
  from detect_cycles_nonempty[OF Inr] have "[] \<notin> set cs" .
  from cycle_issues_eq[OF this] Inr show ?thesis
    by (simp add: validate_tasks_def foldl_check_task Let_def)
qed

lemma detect_cycles_returns:
  "node_count tasks \<le> fuel \<Longrightarrow> \<exists>cs. detect_cycles fuel tasks = Inr cs"
  using detect_cycles_run_returns[of tasks fuel] by (auto simp: detect_cycles_def)

lemma detect_cycles_only_fuel:
  "detect_cycles fuel tasks = Inl e \<Longrightarrow> e = OutOfFuel"
  using detect_cycles_run_only_fuel[of fuel tasks e]
  by (auto simp: detect_cycles_def split: sum.splits)

section \<open>Properties of the findings\<close>

lemma task_issues_props:
  "f \<in> set (task_issues tn t) \<Longrightarrow>
   task f = num t \<and> severity f = ''error'' \<and>
   rule f \<in> {''atomic_scope'', ''verifiable'', ''preconditions'', ''complexity''}"
  by (auto simp: task_issues_def atomic_scope_issue_def verifiable_issue_def
      preconditions_issue_def complexity_issue_def split: if_splits)

lemma task_warnings_props:
  "f \<in> set (task_warnings ord t) \<Longrightarrow>
   task f = num t \<and> severity f = ''warning'' \<and>
   rule f \<in> {''verifiable'', ''steps'', ''complexity'', ''files''}"
  by (auto simp: task_warnings_def verifiable_warning_def steps_warning_def
      complexity_warning_def files_warning_def split: if_splits)

lemma base_issues_props:
  "f \<in> set (base_issues tasks) \<Longrightarrow>
   task f \<in> num ` set tasks \<and> severity f = ''error'' \<and>
   rule f \<in> {''atomic_scope'', ''verifiable'', ''preconditions'', ''complexity''}"
  using task_issues_props by (fastforce simp: base_issues_def)

lemma base_warnings_props:
  "f \<in> set (base_warnings ord tasks) \<Longrightarrow>
   task f \<in> num ` set tasks \<and> severity f = ''warning'' \<and>
   rule f \<in> {''verifiable'', ''steps'', ''complexity'', ''files''}"
  using task_warnings_props by (fastforce simp: base_warnings_def)

lemma base_issues_not_acyclic: "filter (\<lambda>f. rule f = ''acyclic'') (base_issues tasks) = []"
  using base_issues_props by (fastforce simp: filter_empty_conv)

lemma cycle_issue_acyclic:
  "filter (\<lambda>f. rule f = ''acyclic'') (map (\<lambda>c. cycle_issue (hd c) c) cs) =
   map (\<lambda>c. cycle_issue (hd c) c) cs"
  by (induction cs) (auto simp: cycle_issue_def)

lemma validate_tasks_acyclic_findings:
  "validate_tasks fuel ord tasks = Inr r \<Longrightarrow> detect_cycles fuel tasks = Inr cs \<Longrightarrow>
   filter (\<lambda>f. rule f = ''acyclic'') (issues r) = map (\<lambda>c. cycle_issue (hd c) c) cs"
  by (auto simp: validate_tasks_Inr base_issues_not_acyclic cycle_issue_acyclic)

lemma validate_tasks_returns:
  "node_count tasks \<le> fuel \<Longrightarrow> \<exists>r. validate_tasks fuel ord tasks = Inr r"
  using detect_cycles_returns[of tasks fuel] by (auto simp: validate_tasks_Inr)


section \<open>Findings of one task\<close>

lemma filter_concat_single:
  "distinct (map k xs) \<Longrightarrow> x \<in> set xs \<Longrightarrow> \<forall>y\<in>set xs. \<forall>f\<in>set (F y). key f = k y \<Longrightarrow>
   filter (\<lambda>f. key f = k x \<and> Q f) (concat (map F xs)) = filter Q (F x)"
proof (induction xs)
  case Nil
  then show ?case by simp
next
  case (Cons y ys)
  show ?case
  proof (cases "y = x")
    case True
    have "\<forall>z\<in>set ys. k z \<noteq> k x"
      using Cons.prems(1) True by (metis distinct.simps(2) image_eqI list.simps(9) set_map)
    then have "\<forall>z\<in>set ys. \<forall>f\<in>set (F z). key f \<noteq> k x"
      using Cons.prems(3) by auto
    then have "filter (\<lambda>f. key f = k x \<and> Q f) (concat (map F ys)) = []"
      by (auto simp: filter_empty_conv)
    moreover have "filter (\<lambda>f. key f = k x \<and> Q f) (F x) = filter Q (F x)"
      using Cons.prems(3) True by (auto intro: filter_cong)
    ultimately show ?thesis using True by simp
  next
    case False
    with Cons.prems(2) have x: "x \<in> set ys" by simp
    with Cons.prems(1) have "k y \<noteq> k x"
      by (metis distinct.simps(2) image_eqI list.simps(9) set_map)
    with Cons.prems(3) have "filter (\<lambda>f. key f = k x \<and> Q f) (F y) = []"
      by (auto simp: filter_empty_conv)
    moreover have "filter (\<lambda>f. key f = k x \<and> Q f) (concat (map F ys)) = filter Q (F x)"
      using Cons.IH x Cons.prems(1,3) by simp
    ultimately show ?thesis by simp
  qed
qed

lemma base_issues_of_task:
  assumes "distinct (map num tasks)" and "t \<in> set tasks"
  shows "filter (\<lambda>f. task f = num t \<and> Q f) (base_issues tasks) =
         filter Q (task_issues (num ` set tasks) t)"
  unfolding base_issues_def
  using filter_concat_single[OF assms, of "task_issues (set (map num tasks))" task Q]
    task_issues_props by simp

lemma base_warnings_of_task:
  assumes "distinct (map num tasks)" and "t \<in> set tasks"
  shows "filter (\<lambda>f. task f = num t \<and> Q f) (base_warnings ord tasks) =
         filter Q (task_warnings ord t)"
  unfolding base_warnings_def
  using filter_concat_single[OF assms, of "task_warnings ord" task Q]
    task_warnings_props by simp

lemma cycle_findings_other_rule:
  "r \<noteq> ''acyclic'' \<Longrightarrow>
   filter (\<lambda>f. P f \<and> rule f = r) (map (\<lambda>c. cycle_issue (hd c) c) cs) = []"
  by (auto simp: filter_empty_conv cycle_issue_def)

lemma issues_of_task:
  assumes "validate_tasks fuel ord tasks = Inr r" and "distinct (map num tasks)"
    and "t \<in> set tasks" and "rl \<noteq> ''acyclic''"
  shows "filter (\<lambda>f. task f = num t \<and> rule f = rl) (issues r) =
         filter (\<lambda>f. rule f = rl) (task_issues (num ` set tasks) t)"
proof -
  from assms(1) obtain cs where
    i: "issues r = base_issues tasks @ map (\<lambda>c. cycle_issue (hd c) c) cs"
    by (auto simp: validate_tasks_Inr)
  show ?thesis
    unfolding i using base_issues_of_task[OF assms(2,3)] cycle_findings_other_rule[OF assms(4)]
    by simp
qed

lemma task_issues_preconditions:
  "filter (\<lambda>f. rule f = ''preconditions'') (task_issues tn t) =
   map (preconditions_issue t) (filter (\<lambda>dep. dep \<notin> tn) (preconditions t))"
proof -
  have "filter (\<lambda>f. rule f = ''preconditions'') (map (preconditions_issue t) ds) =
        map (preconditions_issue t) ds" for ds
    by (induction ds) (auto simp: preconditions_issue_def)
  then show ?thesis
    by (simp add: task_issues_def atomic_scope_issue_def verifiable_issue_def complexity_issue_def)
qed

lemma task_issues_atomic_scope:
  "filter (\<lambda>f. rule f = ''atomic_scope'') (task_issues tn t) =
   (if file_count t > 3 then [atomic_scope_issue t] else [])"
proof -
  have "filter (\<lambda>f. rule f = ''atomic_scope'') (map (preconditions_issue t) ds) = []" for ds
    by (induction ds) (auto simp: preconditions_issue_def)
  then show ?thesis
    by (simp add: task_issues_def atomic_scope_issue_def verifiable_issue_def complexity_issue_def)
qed

lemma parse_scenario_block: "parse_blocks [scenario_block] = [scenario_task]"
  by code_simp

lemma warnings_of_task:
  assumes "validate_tasks fuel ord tasks = Inr r" and "distinct (map num tasks)"
    and "t \<in> set tasks"
  shows "filter (\<lambda>f. task f = num t \<and> Q f) (warnings_list r) = filter Q (task_warnings ord t)"
proof -
  from assms(1) have "warnings_list r = base_warnings ord tasks"
    by (auto simp: validate_tasks_Inr)
  with base_warnings_of_task[OF assms(2,3)] show ?thesis by simp
qed

lemma warnings_not_atomic_scope:
  "validate_tasks fuel ord tasks = Inr r \<Longrightarrow>
   filter (\<lambda>f. rule f = ''atomic_scope'') (warnings_list r) = []"
  using base_warnings_props by (fastforce simp: validate_tasks_Inr filter_empty_conv)

lemma parse_blocks_file_count: "t \<in> set (parse_blocks bs) \<Longrightarrow> file_count t = length (files t)"
  by (auto simp: parse_blocks_def task_of_block_def Let_def)

lemma validate_scenario:
  "validate_tasks (Suc n) vc_order [scenario_task] =
     Inr \<lparr> total_tasks = 1, errors = 1, warnings = 1,
           issues = [\<lparr> task = 1, rule = ''atomic_scope'', severity = ''error'',
                       message = ''Task 1: Touches 4 files (max 3). Split this task.'' \<rparr>],
           warnings_list = [\<lparr> task = 1, rule = ''steps'', severity = ''warning'',
                       message = ''Task 1: No steps found. Add concrete action steps.'' \<rparr>],
           passed = False \<rparr>"
proof -
  have s: "str_int 1 = ''1''" "str_nat 4 = ''4''" by code_simp+
  have d: "detect_cycles (Suc n) [scenario_task] = Inr []"
    by (simp add: detect_cycles_def detect_cycles_run_def build_graph_def scenario_task_def
        dfs_init_def graph_get_def)
  have i: "base_issues [scenario_task] = [atomic_scope_issue scenario_task]"
    by (simp add: base_issues_def task_issues_def scenario_task_def)
  have w: "base_warnings vc_order [scenario_task] = [steps_warning scenario_task]"
    by (simp add: base_warnings_def task_warnings_def scenario_task_def lower_def lower_char_def
        VALID_COMPLEXITIES_def)
  have "validate_tasks (Suc n) vc_order [scenario_task] =
     Inr \<lparr> total_tasks = 1, errors = 1, warnings = 1,
           issues = [atomic_scope_issue scenario_task],
           warnings_list = [steps_warning scenario_task], passed = False \<rparr>"
    using d by (simp add: validate_tasks_Inr i w)
  then show ?thesis
    by (simp add: atomic_scope_issue_def steps_warning_def scenario_task_def s)
qed

lemma task_issues_in_result:
  assumes "validate_tasks fuel ord tasks = Inr r" and "t \<in> set tasks"
  shows "set (task_issues (num ` set tasks) t) \<subseteq> set (issues r)"
proof -
  from assms(1) obtain cs where
    i: "issues r = base_issues tasks @ map (\<lambda>c. cycle_issue (hd c) c) cs"
    by (auto simp: validate_tasks_Inr)
  from assms(2) show ?thesis unfolding i base_issues_def by auto
qed

lemma task_warnings_in_result:
  assumes "validate_tasks fuel ord tasks = Inr r" and "t \<in> set tasks"
  shows "set (task_warnings ord t) \<subseteq> set (warnings_list r)"
proof -
  from assms(1) have i: "warnings_list r = base_warnings ord tasks"
    by (auto simp: validate_tasks_Inr)
  from assms(2) show ?thesis unfolding i base_warnings_def by auto
qed

lemma severity_issues:
  "validate_tasks fuel ord tasks = Inr r \<Longrightarrow>
   map severity (issues r) = replicate (length (issues r)) ''error''"
proof -
  assume "validate_tasks fuel ord tasks = Inr r"
  then obtain cs where
    i: "issues r = base_issues tasks @ map (\<lambda>c. cycle_issue (hd c) c) cs"
    by (auto simp: validate_tasks_Inr)
  show ?thesis
    by (rule replicate_eqI) (use i base_issues_props in \<open>auto simp: cycle_issue_def\<close>)
qed

lemma severity_warnings:
  "validate_tasks fuel ord tasks = Inr r \<Longrightarrow>
   map severity (warnings_list r) = replicate (length (warnings_list r)) ''warning''"
proof -
  assume "validate_tasks fuel ord tasks = Inr r"
  then have i: "warnings_list r = base_warnings ord tasks"
    by (auto simp: validate_tasks_Inr)
  show ?thesis
    by (rule replicate_eqI) (use i base_warnings_props in auto)
qed

lemma task_warnings_order:
  "map (\<lambda>f. (task f, rule f, severity f)) (task_warnings o1 t) =
   map (\<lambda>f. (task f, rule f, severity f)) (task_warnings o2 t)"
  by (simp add: task_warnings_def complexity_warning_def)

lemma task_warnings_standard:
  "complexity t = [] \<or> complexity t \<in> VALID_COMPLEXITIES \<Longrightarrow>
   task_warnings o1 t = task_warnings o2 t"
  by (auto simp: task_warnings_def)

lemma validate_tasks_order_independent:
  assumes "validate_tasks fuel o1 tasks = Inr r1" and "validate_tasks fuel o2 tasks = Inr r2"
  shows "total_tasks r1 = total_tasks r2 \<and> errors r1 = errors r2 \<and> warnings r1 = warnings r2 \<and>
         issues r1 = issues r2 \<and> passed r1 = passed r2 \<and>
         map (\<lambda>f. (task f, rule f, severity f)) (warnings_list r1) =
         map (\<lambda>f. (task f, rule f, severity f)) (warnings_list r2)"
proof -
  have m: "map (\<lambda>f. (task f, rule f, severity f)) (base_warnings o1 tasks) =
        map (\<lambda>f. (task f, rule f, severity f)) (base_warnings o2 tasks)"
    unfolding base_warnings_def map_concat map_map comp_def
    using task_warnings_order[of o1 _ o2] by simp
  then have "length (base_warnings o1 tasks) = length (base_warnings o2 tasks)"
    by (rule map_eq_imp_length_eq)
  with assms m show ?thesis by (auto simp: validate_tasks_Inr)
qed

lemma validate_tasks_standard_complexities:
  assumes "\<forall>t\<in>set tasks. complexity t = [] \<or> complexity t \<in> VALID_COMPLEXITIES"
  shows "validate_tasks fuel o1 tasks = validate_tasks fuel o2 tasks"
proof -
  have "map (task_warnings o1) tasks = map (task_warnings o2) tasks"
    using assms task_warnings_standard by (auto intro: map_cong)
  then have b: "base_warnings o1 tasks = base_warnings o2 tasks"
    by (simp only: base_warnings_def)
  show ?thesis
  proof (cases "validate_tasks fuel o1 tasks")
    case (Inl e)
    then show ?thesis by (metis validate_tasks_Inl)
  next
    case (Inr r)
    then have "validate_tasks fuel o2 tasks = Inr r"
      unfolding validate_tasks_Inr b .
    with Inr show ?thesis by simp
  qed
qed

section \<open>Properties of the parser\<close>








lemma strip_chars_decomp:
  "\<exists>a b. s = a @ strip_chars p s @ b \<and> (\<forall>c\<in>set a. p c) \<and> (\<forall>c\<in>set b. p c)"
proof -
  let ?d = "dropWhile p s"
  have 1: "s = takeWhile p s @ ?d" by simp
  have 2: "rev ?d = takeWhile p (rev ?d) @ dropWhile p (rev ?d)" by simp
  then have "?d = rev (dropWhile p (rev ?d)) @ rev (takeWhile p (rev ?d))"
    by (metis rev_append rev_rev_ident)
  then have "s = takeWhile p s @ strip_chars p s @ rev (takeWhile p (rev ?d))"
    using 1 by (simp add: strip_chars_def)
  moreover have "\<forall>c\<in>set (takeWhile p s). p c" by (auto dest: set_takeWhileD)
  moreover have "\<forall>c\<in>set (rev (takeWhile p (rev ?d))). p c" by (auto dest: set_takeWhileD)
  ultimately show ?thesis by blast
qed









section \<open>Linear chains\<close>

lemma position_append: "x \<notin> set pre \<Longrightarrow> position (pre @ x # rest) x = length pre"
  by (induction pre) (auto simp: position_def)

lemma chain_from_adjacent:
  "chain_from prev ts \<Longrightarrow> t \<in> set ts \<Longrightarrow> d \<in> set (preconditions t) \<Longrightarrow>
   \<exists>pre post. prev # map num ts = pre @ d # num t # post"
proof (induction ts arbitrary: prev)
  case Nil
  then show ?case by simp
next
  case (Cons u us)
  show ?case
  proof (cases "t = u")
    case True
    with Cons.prems have "d = prev" by simp
    with True have "prev # map num (u # us) = [] @ d # num t # map num us" by simp
    then show ?thesis by blast
  next
    case False
    with Cons.prems have "chain_from (num u) us" "t \<in> set us" by simp_all
    from Cons.IH[OF this Cons.prems(3)] obtain pre post where
      "num u # map num us = pre @ d # num t # post" by blast
    then have "prev # map num (u # us) = (prev # pre) @ d # num t # post" by simp
    then show ?thesis by blast
  qed
qed

lemma adjacent_position:
  assumes "distinct xs" and "xs = pre @ d # k # post"
  shows "position xs d < position xs k"
proof -
  from assms have a: "d \<notin> set pre" and b: "k \<notin> set (pre @ [d])" by auto
  from position_append[OF a] assms(2) have "position xs d = length pre" by simp
  moreover from position_append[OF b, of post] assms(2) have "position xs k = Suc (length pre)"
    by simp
  ultimately show ?thesis by simp
qed

lemma linear_chain_rank:
  assumes "is_linear_chain tasks"
  shows "\<forall>t\<in>set tasks. \<forall>d\<in>set (preconditions t).
           position (map num tasks) d < position (map num tasks) (num t)"
proof (cases tasks)
  case Nil
  then show ?thesis by simp
next
  case (Cons u us)
  with assms have dis: "distinct (map num tasks)" and e: "preconditions u = []"
    and c: "chain_from (num u) us"
    by (simp_all add: is_linear_chain_def)
  show ?thesis
  proof (intro ballI)
    fix t d assume t: "t \<in> set tasks" and d: "d \<in> set (preconditions t)"
    from t d e Cons have "t \<in> set us" by auto
    from chain_from_adjacent[OF c this d] obtain pre post where
      "num u # map num us = pre @ d # num t # post" by blast
    with Cons have "map num tasks = pre @ d # num t # post" by simp
    from adjacent_position[OF dis this]
    show "position (map num tasks) d < position (map num tasks) (num t)" .
  qed
qed

section \<open>Claims\<close>



text \<open>
  C2. A task sequence whose dependency graph is acyclic gives no cycle finding. The
  graph is acyclic when some rank on the numbers decreases along every declared
  precondition; a linear chain (the first task depends on none, every later task on the
  task before it, all numbers distinct) is the case named by the specification. With a
  recursion depth of at least the number of distinct numbers in the plan, cycle
  detection returns the empty list and the validation result holds no finding of rule
  \<open>acyclic\<close>.
\<close>

theorem acyclic_no_cycle_finding:
  assumes "(\<forall>t\<in>set tasks. \<forall>d\<in>set (preconditions t). rank d < (rank (num t) :: nat)) \<or>
           is_linear_chain tasks"
    and "node_count tasks \<le> fuel"
  shows "detect_cycles fuel tasks = Inr [] \<and>
         (\<exists>r. validate_tasks fuel vc_order tasks = Inr r \<and>
              filter (\<lambda>f. rule f = ''acyclic'') (issues r) = [])"
proof -
  from detect_cycles_run_returns[OF assms(2)] obtain st where
    st: "detect_cycles_run fuel tasks = Inr st" by blast
  from assms(1) have "cycles st = []"
  proof
    assume "\<forall>t\<in>set tasks. \<forall>d\<in>set (preconditions t). rank d < rank (num t)"
    from detect_cycles_run_no_cycle[OF st this] show ?thesis .
  next
    assume "is_linear_chain tasks"
    from detect_cycles_run_no_cycle[OF st linear_chain_rank[OF this]] show ?thesis .
  qed
  with st have d: "detect_cycles fuel tasks = Inr []" by (simp add: detect_cycles_def)
  then obtain r where r: "validate_tasks fuel vc_order tasks = Inr r"
    by (auto simp: validate_tasks_Inr)
  from validate_tasks_acyclic_findings[OF r d] d r show ?thesis by simp
qed

theorem acyclic_no_cycle_finding_witness:
  "is_linear_chain [plain_task 1 [], plain_task 2 [1], plain_task 3 [2]] \<and>
   node_count [plain_task 1 [], plain_task 2 [1], plain_task 3 [2]] \<le> 3 \<and>
   detect_cycles 3 [plain_task 1 [], plain_task 2 [1], plain_task 3 [2]] = Inr [] \<and>
   (\<exists>r. validate_tasks 3 vc_order_src [plain_task 1 [], plain_task 2 [1], plain_task 3 [2]] = Inr r \<and>
        filter (\<lambda>f. rule f = ''acyclic'') (issues r) = [])"
proof -
  have n: "node_count [plain_task 1 [], plain_task 2 [1], plain_task 3 [2]] \<le> 3"
    by (simp add: node_count_def all_nodes_def plain_task_def)
  have c: "is_linear_chain [plain_task 1 [], plain_task 2 [1], plain_task 3 [2]]"
    by (simp add: is_linear_chain_def plain_task_def)
  from acyclic_no_cycle_finding[OF disjI2[OF c] n, of vc_order_src] n c show ?thesis by simp
qed

text \<open>
  C3. In a plan with unique task numbers, a task gets one \<open>preconditions\<close> error for
  each entry of its preconditions list whose number no task carries, in list order and
  whatever other tasks exist: exactly the findings \<open>preconditions_issue t dep\<close> for the
  dangling entries \<open>dep\<close>. A task with exactly one dangling entry gets exactly one.
\<close>

theorem dangling_preconditions_findings:
  assumes "node_count tasks \<le> fuel" and "distinct (map num tasks)" and "t \<in> set tasks"
  shows "\<exists>r. validate_tasks fuel vc_order tasks = Inr r \<and>
             filter (\<lambda>f. task f = num t \<and> rule f = ''preconditions'') (issues r) =
             map (preconditions_issue t)
                 (filter (\<lambda>dep. dep \<notin> num ` set tasks) (preconditions t))"
proof -
  from validate_tasks_returns[OF assms(1)] obtain r where
    r: "validate_tasks fuel vc_order tasks = Inr r" by blast
  have "''preconditions'' \<noteq> ''acyclic''" by simp
  from issues_of_task[OF r assms(2,3) this] r show ?thesis
    by (simp add: task_issues_preconditions)
qed

theorem dangling_preconditions_findings_witness:
  "node_count [plain_task 1 [], plain_task 2 [1, 9]] \<le> 3 \<and>
   distinct (map num [plain_task 1 [], plain_task 2 [1, 9]]) \<and>
   (\<exists>r. validate_tasks 3 vc_order_src [plain_task 1 [], plain_task 2 [1, 9]] = Inr r \<and>
        filter (\<lambda>f. task f = 2 \<and> rule f = ''preconditions'') (issues r) =
        [preconditions_issue (plain_task 2 [1, 9]) 9])"
proof -
  have n: "node_count [plain_task 1 [], plain_task 2 [1, 9]] \<le> 3"
    by (simp add: node_count_def all_nodes_def plain_task_def)
  have d: "distinct (map num [plain_task 1 [], plain_task 2 [1, 9]])"
    by (simp add: plain_task_def)
  have m: "plain_task 2 [1, 9] \<in> set [plain_task 1 [], plain_task 2 [1, 9]]" by simp
  from dangling_preconditions_findings[OF n d m, of vc_order_src] n d show ?thesis
    by (simp add: plain_task_def)
qed

text \<open>
  C3, as first stated, promises exactly one \<open>preconditions\<close> error for a task with a
  dangling reference. A task that references two absent numbers gets two, and so does a
  task whose Preconditions field writes one absent number twice.
\<close>

theorem dangling_preconditions_two_findings:
  "map rule (issues (projr (validate_tasks 3 vc_order_src [plain_task 1 [7, 8]]))) =
     [''preconditions'', ''preconditions''] \<and>
   parse_preconditions (Some ''Task 9, Task 9'') = [9, 9] \<and>
   map message (issues (projr (validate_tasks 2 vc_order_src [plain_task 1 [9, 9]]))) =
     [''Task 1: References Task 9 which does not exist.'',
      ''Task 1: References Task 9 which does not exist.'']"
  by code_simp




text \<open>
  C5. Validation never raises: whatever the recursion depth, the result is never a
  ValueError or an IndexError, and with a depth of at least the number of distinct
  numbers in the plan a result is returned. Every rule is evaluated on every task: for
  each task and each rule whose condition holds, the rule's finding is in the result,
  whatever the other rules found on that task; each detected cycle has its finding too.
\<close>

theorem validate_returns_all_findings:
  "validate_tasks fuel vc_order tasks \<noteq> Inl ValueError \<and>
   validate_tasks fuel vc_order tasks \<noteq> Inl IndexError \<and>
   (node_count tasks \<le> fuel \<longrightarrow>
     (\<exists>r cs. validate_tasks fuel vc_order tasks = Inr r \<and> detect_cycles fuel tasks = Inr cs \<and>
       (\<forall>t\<in>set tasks.
          (3 < file_count t \<longrightarrow> atomic_scope_issue t \<in> set (issues r)) \<and>
          (done_when t = [] \<longrightarrow> verifiable_issue t \<in> set (issues r)) \<and>
          (done_when t \<noteq> [] \<and> lower (done_when t) \<in> set [''tbd'', ''todo'', ''n/a'']
             \<longrightarrow> verifiable_warning t \<in> set (warnings_list r)) \<and>
          (\<not> has_steps t \<longrightarrow> steps_warning t \<in> set (warnings_list r)) \<and>
          (\<forall>dep\<in>set (preconditions t).
             dep \<notin> num ` set tasks \<longrightarrow> preconditions_issue t dep \<in> set (issues r)) \<and>
          (complexity t = [] \<longrightarrow> complexity_issue t \<in> set (issues r)) \<and>
          (complexity t \<noteq> [] \<and> complexity t \<notin> VALID_COMPLEXITIES
             \<longrightarrow> complexity_warning vc_order t \<in> set (warnings_list r)) \<and>
          (files t = [] \<or> files t = [[]] \<longrightarrow> files_warning t \<in> set (warnings_list r))) \<and>
       (\<forall>c\<in>set cs. c \<noteq> [] \<and> cycle_issue (hd c) c \<in> set (issues r))))"
proof (intro conjI impI)
  show "validate_tasks fuel vc_order tasks \<noteq> Inl ValueError"
    using detect_cycles_only_fuel[of fuel tasks ValueError] by (auto simp: validate_tasks_Inl)
  show "validate_tasks fuel vc_order tasks \<noteq> Inl IndexError"
    using detect_cycles_only_fuel[of fuel tasks IndexError] by (auto simp: validate_tasks_Inl)
next
  assume n: "node_count tasks \<le> fuel"
  from validate_tasks_returns[OF n] obtain r where
    r: "validate_tasks fuel vc_order tasks = Inr r" by blast
  then obtain cs where cs: "detect_cycles fuel tasks = Inr cs"
    and i: "issues r = base_issues tasks @ map (\<lambda>c. cycle_issue (hd c) c) cs"
    by (auto simp: validate_tasks_Inr)
  have per_task: "(3 < file_count t \<longrightarrow> atomic_scope_issue t \<in> set (issues r)) \<and>
          (done_when t = [] \<longrightarrow> verifiable_issue t \<in> set (issues r)) \<and>
          (done_when t \<noteq> [] \<and> lower (done_when t) \<in> set [''tbd'', ''todo'', ''n/a'']
             \<longrightarrow> verifiable_warning t \<in> set (warnings_list r)) \<and>
          (\<not> has_steps t \<longrightarrow> steps_warning t \<in> set (warnings_list r)) \<and>
          (\<forall>dep\<in>set (preconditions t).
             dep \<notin> num ` set tasks \<longrightarrow> preconditions_issue t dep \<in> set (issues r)) \<and>
          (complexity t = [] \<longrightarrow> complexity_issue t \<in> set (issues r)) \<and>
          (complexity t \<noteq> [] \<and> complexity t \<notin> VALID_COMPLEXITIES
             \<longrightarrow> complexity_warning vc_order t \<in> set (warnings_list r)) \<and>
          (files t = [] \<or> files t = [[]] \<longrightarrow> files_warning t \<in> set (warnings_list r))"
    if t: "t \<in> set tasks" for t
  proof -
    have a: "set (task_issues (num ` set tasks) t) \<subseteq> set (issues r)"
      by (rule task_issues_in_result[OF r t])
    have b: "set (task_warnings vc_order t) \<subseteq> set (warnings_list r)"
      by (rule task_warnings_in_result[OF r t])
    have "(3 < file_count t \<longrightarrow> atomic_scope_issue t \<in> set (task_issues (num ` set tasks) t)) \<and>
          (done_when t = [] \<longrightarrow> verifiable_issue t \<in> set (task_issues (num ` set tasks) t)) \<and>
          (\<forall>dep\<in>set (preconditions t). dep \<notin> num ` set tasks \<longrightarrow>
             preconditions_issue t dep \<in> set (task_issues (num ` set tasks) t)) \<and>
          (complexity t = [] \<longrightarrow> complexity_issue t \<in> set (task_issues (num ` set tasks) t))"
      by (simp add: task_issues_def)
    moreover have
      "(done_when t \<noteq> [] \<and> lower (done_when t) \<in> set [''tbd'', ''todo'', ''n/a'']
             \<longrightarrow> verifiable_warning t \<in> set (task_warnings vc_order t)) \<and>
       (\<not> has_steps t \<longrightarrow> steps_warning t \<in> set (task_warnings vc_order t)) \<and>
       (complexity t \<noteq> [] \<and> complexity t \<notin> VALID_COMPLEXITIES
             \<longrightarrow> complexity_warning vc_order t \<in> set (task_warnings vc_order t)) \<and>
       (files t = [] \<or> files t = [[]] \<longrightarrow> files_warning t \<in> set (task_warnings vc_order t))"
      by (simp add: task_warnings_def)
    ultimately show ?thesis using a b by blast
  qed
  have cyc: "\<forall>c\<in>set cs. c \<noteq> [] \<and> cycle_issue (hd c) c \<in> set (issues r)"
    using detect_cycles_nonempty[OF cs] i by auto
  from r cs per_task cyc
  show "\<exists>r cs. validate_tasks fuel vc_order tasks = Inr r \<and> detect_cycles fuel tasks = Inr cs \<and>
       (\<forall>t\<in>set tasks.
          (3 < file_count t \<longrightarrow> atomic_scope_issue t \<in> set (issues r)) \<and>
          (done_when t = [] \<longrightarrow> verifiable_issue t \<in> set (issues r)) \<and>
          (done_when t \<noteq> [] \<and> lower (done_when t) \<in> set [''tbd'', ''todo'', ''n/a'']
             \<longrightarrow> verifiable_warning t \<in> set (warnings_list r)) \<and>
          (\<not> has_steps t \<longrightarrow> steps_warning t \<in> set (warnings_list r)) \<and>
          (\<forall>dep\<in>set (preconditions t).
             dep \<notin> num ` set tasks \<longrightarrow> preconditions_issue t dep \<in> set (issues r)) \<and>
          (complexity t = [] \<longrightarrow> complexity_issue t \<in> set (issues r)) \<and>
          (complexity t \<noteq> [] \<and> complexity t \<notin> VALID_COMPLEXITIES
             \<longrightarrow> complexity_warning vc_order t \<in> set (warnings_list r)) \<and>
          (files t = [] \<or> files t = [[]] \<longrightarrow> files_warning t \<in> set (warnings_list r))) \<and>
       (\<forall>c\<in>set cs. c \<noteq> [] \<and> cycle_issue (hd c) c \<in> set (issues r))"
    by blast
qed

theorem validate_returns_all_findings_witness:
  "node_count [failing_task] \<le> 2 \<and>
   (\<exists>r. validate_tasks 2 vc_order_src [failing_task] = Inr r \<and>
        atomic_scope_issue failing_task \<in> set (issues r) \<and>
        verifiable_issue failing_task \<in> set (issues r) \<and>
        preconditions_issue failing_task 9 \<in> set (issues r) \<and>
        complexity_issue failing_task \<in> set (issues r) \<and>
        steps_warning failing_task \<in> set (warnings_list r))"
proof -
  have n: "node_count [failing_task] \<le> 2"
    by (simp add: node_count_def all_nodes_def failing_task_def)
  have f: "3 < file_count failing_task" "done_when failing_task = []"
    "\<not> has_steps failing_task" "9 \<in> set (preconditions failing_task)"
    "9 \<notin> num ` set [failing_task]" "complexity failing_task = []"
    by (simp_all add: failing_task_def)
  from validate_returns_all_findings[of 2 vc_order_src "[failing_task]"] n
  obtain r where r: "validate_tasks 2 vc_order_src [failing_task] = Inr r"
    and a: "\<forall>t\<in>set [failing_task].
          (3 < file_count t \<longrightarrow> atomic_scope_issue t \<in> set (issues r)) \<and>
          (done_when t = [] \<longrightarrow> verifiable_issue t \<in> set (issues r)) \<and>
          (done_when t \<noteq> [] \<and> lower (done_when t) \<in> set [''tbd'', ''todo'', ''n/a'']
             \<longrightarrow> verifiable_warning t \<in> set (warnings_list r)) \<and>
          (\<not> has_steps t \<longrightarrow> steps_warning t \<in> set (warnings_list r)) \<and>
          (\<forall>dep\<in>set (preconditions t).
             dep \<notin> num ` set [failing_task] \<longrightarrow> preconditions_issue t dep \<in> set (issues r)) \<and>
          (complexity t = [] \<longrightarrow> complexity_issue t \<in> set (issues r)) \<and>
          (complexity t \<noteq> [] \<and> complexity t \<notin> VALID_COMPLEXITIES
             \<longrightarrow> complexity_warning vc_order_src t \<in> set (warnings_list r)) \<and>
          (files t = [] \<or> files t = [[]] \<longrightarrow> files_warning t \<in> set (warnings_list r))"
    by blast
  from a f have "atomic_scope_issue failing_task \<in> set (issues r) \<and>
        verifiable_issue failing_task \<in> set (issues r) \<and>
        preconditions_issue failing_task 9 \<in> set (issues r) \<and>
        complexity_issue failing_task \<in> set (issues r) \<and>
        steps_warning failing_task \<in> set (warnings_list r)"
    by (metis list.set_intros(1))
  with n r show ?thesis by blast
qed

text \<open>
  C6. The validation result of every task sequence has \<open>errors\<close> equal to the length of
  \<open>issues\<close>, \<open>warnings\<close> equal to the length of \<open>warnings_list\<close> and \<open>passed\<close> true exactly
  when \<open>errors\<close> is 0. Every entry of \<open>issues\<close> has severity \<open>error\<close> and every entry of
  \<open>warnings_list\<close> has severity \<open>warning\<close>, so warnings never count; the detected cycles
  are among the issues, one \<open>acyclic\<close> finding each.
\<close>

theorem result_counts:
  assumes "node_count tasks \<le> fuel"
  shows "\<exists>r cs. validate_tasks fuel vc_order tasks = Inr r \<and>
           detect_cycles fuel tasks = Inr cs \<and>
           total_tasks r = length tasks \<and>
           errors r = length (issues r) \<and>
           warnings r = length (warnings_list r) \<and>
           passed r = (errors r = 0) \<and>
           map severity (issues r) = replicate (errors r) ''error'' \<and>
           map severity (warnings_list r) = replicate (warnings r) ''warning'' \<and>
           length (filter (\<lambda>f. rule f = ''acyclic'') (issues r)) = length cs"
proof -
  from validate_tasks_returns[OF assms] obtain r where
    r: "validate_tasks fuel vc_order tasks = Inr r" by blast
  then obtain cs where cs: "detect_cycles fuel tasks = Inr cs"
    by (auto simp: validate_tasks_Inr)
  from r have c: "total_tasks r = length tasks" "errors r = length (issues r)"
    "warnings r = length (warnings_list r)" "passed r = (errors r = 0)"
    by (auto simp: validate_tasks_Inr)
  from validate_tasks_acyclic_findings[OF r cs]
  have a: "length (filter (\<lambda>f. rule f = ''acyclic'') (issues r)) = length cs" by simp
  from severity_issues[OF r] severity_warnings[OF r] c a r cs show ?thesis by simp
qed

theorem result_counts_witness:
  "node_count [plain_task 1 [2], plain_task 2 [1]] \<le> 2 \<and>
   (\<exists>r. validate_tasks 2 vc_order_src [plain_task 1 [2], plain_task 2 [1]] = Inr r \<and>
        errors r = length (issues r) \<and> warnings r = length (warnings_list r) \<and>
        passed r = (errors r = 0) \<and>
        length (filter (\<lambda>f. rule f = ''acyclic'') (issues r)) = 1)"
proof -
  have n: "node_count [plain_task 1 [2], plain_task 2 [1]] \<le> 2"
    by (simp add: node_count_def all_nodes_def plain_task_def)
  have d: "detect_cycles 2 [plain_task 1 [2], plain_task 2 [1]] = Inr [[1, 2, 1]]"
    by code_simp
  from result_counts[OF n, of vc_order_src] n d show ?thesis by auto
qed

text \<open>
  C7. In a parsed plan with unique task numbers, a task whose files list has more than
  three entries gets exactly one finding of rule \<open>atomic_scope\<close>; it is in the list of
  issues with severity \<open>error\<close>, and no warning has that rule. In particular the single
  block with Files \<open>a.py, b.py, c.py, d.py\<close>, Done when \<open>tests pass\<close>, Complexity
  \<open>small\<close>, Preconditions \<open>none\<close> and no Steps block validates to one error
  (\<open>atomic_scope\<close>), one warning (the missing steps) and \<open>passed = False\<close>.
\<close>

theorem atomic_scope_one_error:
  "(node_count (parse_blocks bs) \<le> fuel \<and> distinct (map num (parse_blocks bs)) \<and>
    t \<in> set (parse_blocks bs) \<and> 3 < length (files t) \<longrightarrow>
      (\<exists>r. validate_tasks fuel vc_order (parse_blocks bs) = Inr r \<and>
           filter (\<lambda>f. task f = num t \<and> rule f = ''atomic_scope'') (issues r) =
             [atomic_scope_issue t] \<and>
           severity (atomic_scope_issue t) = ''error'' \<and>
           filter (\<lambda>f. rule f = ''atomic_scope'') (warnings_list r) = [])) \<and>
   validate_tasks (Suc n) vc_order (parse_blocks [scenario_block]) =
     Inr \<lparr> total_tasks = 1, errors = 1, warnings = 1,
           issues = [\<lparr> task = 1, rule = ''atomic_scope'', severity = ''error'',
                       message = ''Task 1: Touches 4 files (max 3). Split this task.'' \<rparr>],
           warnings_list = [\<lparr> task = 1, rule = ''steps'', severity = ''warning'',
                       message = ''Task 1: No steps found. Add concrete action steps.'' \<rparr>],
           passed = False \<rparr>"
proof (intro conjI impI)
  assume a: "node_count (parse_blocks bs) \<le> fuel \<and> distinct (map num (parse_blocks bs)) \<and>
    t \<in> set (parse_blocks bs) \<and> 3 < length (files t)"
  then have n: "node_count (parse_blocks bs) \<le> fuel" and d: "distinct (map num (parse_blocks bs))"
    and m: "t \<in> set (parse_blocks bs)" and l: "3 < length (files t)" by blast+
  from validate_tasks_returns[OF n] obtain r where
    r: "validate_tasks fuel vc_order (parse_blocks bs) = Inr r" by blast
  from parse_blocks_file_count[OF m] l have fc: "3 < file_count t" by simp
  have ne: "''atomic_scope'' \<noteq> ''acyclic''" by simp
  from issues_of_task[OF r d m ne] fc
  have "filter (\<lambda>f. task f = num t \<and> rule f = ''atomic_scope'') (issues r) = [atomic_scope_issue t]"
    by (simp add: task_issues_atomic_scope)
  with r warnings_not_atomic_scope[OF r]
  show "\<exists>r. validate_tasks fuel vc_order (parse_blocks bs) = Inr r \<and>
           filter (\<lambda>f. task f = num t \<and> rule f = ''atomic_scope'') (issues r) =
             [atomic_scope_issue t] \<and>
           severity (atomic_scope_issue t) = ''error'' \<and>
           filter (\<lambda>f. rule f = ''atomic_scope'') (warnings_list r) = []"
    by (simp add: atomic_scope_issue_def)
next
  show "validate_tasks (Suc n) vc_order (parse_blocks [scenario_block]) =
     Inr \<lparr> total_tasks = 1, errors = 1, warnings = 1,
           issues = [\<lparr> task = 1, rule = ''atomic_scope'', severity = ''error'',
                       message = ''Task 1: Touches 4 files (max 3). Split this task.'' \<rparr>],
           warnings_list = [\<lparr> task = 1, rule = ''steps'', severity = ''warning'',
                       message = ''Task 1: No steps found. Add concrete action steps.'' \<rparr>],
           passed = False \<rparr>"
    by (simp only: parse_scenario_block validate_scenario)
qed

theorem atomic_scope_one_error_witness:
  "node_count (parse_blocks [scenario_block]) \<le> 1 \<and>
   distinct (map num (parse_blocks [scenario_block])) \<and>
   length (files scenario_task) = 4 \<and>
   (\<exists>r. validate_tasks 1 vc_order_src (parse_blocks [scenario_block]) = Inr r \<and>
        filter (\<lambda>f. task f = 1 \<and> rule f = ''atomic_scope'') (issues r) =
          [atomic_scope_issue scenario_task] \<and>
        filter (\<lambda>f. rule f = ''atomic_scope'') (warnings_list r) = [])"
proof -
  have n: "node_count (parse_blocks [scenario_block]) \<le> 1"
    by (simp only: parse_scenario_block) (simp add: node_count_def all_nodes_def scenario_task_def)
  have d: "distinct (map num (parse_blocks [scenario_block]))"
    by (simp only: parse_scenario_block) simp
  have m: "scenario_task \<in> set (parse_blocks [scenario_block])"
    by (simp only: parse_scenario_block) simp
  have l: "3 < length (files scenario_task)" "length (files scenario_task) = 4"
    "num scenario_task = 1"
    by (simp_all add: scenario_task_def)
  have "\<exists>r. validate_tasks 1 vc_order_src (parse_blocks [scenario_block]) = Inr r \<and>
        filter (\<lambda>f. task f = num scenario_task \<and> rule f = ''atomic_scope'') (issues r) =
          [atomic_scope_issue scenario_task] \<and>
        severity (atomic_scope_issue scenario_task) = ''error'' \<and>
        filter (\<lambda>f. rule f = ''atomic_scope'') (warnings_list r) = []"
    by (rule mp[OF conjunct1[OF atomic_scope_one_error[of "[scenario_block]" 1
              scenario_task vc_order_src 0]]])
       (simp only: n d m l simp_thms)
  with n d l show ?thesis by auto
qed



text \<open>
  C9. Two runs that enumerate the complexity set in different orders disagree on the
  text of the non-standard-complexity warning. Both lists below enumerate the four
  labels; the task has the label \<open>huge\<close>.
\<close>

theorem complexity_message_depends_on_set_order:
  "is_iteration_order vc_order_src \<and> is_iteration_order vc_order_other \<and>
   map message (warnings_list (projr (validate_tasks 1 vc_order_src [huge_task]))) =
     [''Task 1: Complexity '' @ [CHR 0x27] @ ''huge'' @ [CHR 0x27]
        @ '' not standard. Use: trivial, small, medium, large''] \<and>
   map message (warnings_list (projr (validate_tasks 1 vc_order_other [huge_task]))) =
     [''Task 1: Complexity '' @ [CHR 0x27] @ ''huge'' @ [CHR 0x27]
        @ '' not standard. Use: small, large, trivial, medium''] \<and>
   validate_tasks 1 vc_order_src [huge_task] \<noteq> validate_tasks 1 vc_order_other [huge_task]"
  by code_simp

text \<open>
  C10. Cycle detection terminates on every task sequence, cyclic or not: with a
  recursion depth of at least the number of distinct numbers occurring in the plan
  (task numbers and referenced numbers) it returns. Every call of \<open>dfs\<close> is on a number
  not yet visited and marks it, so the number of calls equals the size of the final
  visited set; that set holds every task number and only numbers of the plan, so the
  number of calls is at most the number of distinct task numbers and referenced numbers.
\<close>

theorem detect_cycles_terminates:
  assumes "node_count tasks \<le> fuel"
  shows "\<exists>st. detect_cycles_run fuel tasks = Inr st \<and>
              calls st = card (visited st) \<and>
              num ` set tasks \<subseteq> visited st \<and>
              visited st \<subseteq> set (all_nodes tasks) \<and>
              calls st \<le> node_count tasks"
proof -
  from detect_cycles_run_returns[OF assms] obtain st where
    st: "detect_cycles_run fuel tasks = Inr st" by blast
  from detect_cycles_run_inv[OF st] have
    i: "roots_inv (set (all_nodes tasks)) st" and v: "num ` set tasks \<subseteq> visited st" by auto
  from i have c: "calls st = card (visited st)" and s: "visited st \<subseteq> set (all_nodes tasks)"
    by (auto simp: roots_inv_def)
  from s have "card (visited st) \<le> card (set (all_nodes tasks))"
    by (simp add: card_mono)
  with c have "calls st \<le> node_count tasks" by (simp add: node_count_card)
  with st c v s show ?thesis by blast
qed

theorem detect_cycles_terminates_witness:
  "node_count [plain_task 1 [2], plain_task 2 [1]] \<le> 2 \<and>
   (\<exists>st. detect_cycles_run 2 [plain_task 1 [2], plain_task 2 [1]] = Inr st \<and> calls st \<le> 2)"
proof -
  have n: "node_count [plain_task 1 [2], plain_task 2 [1]] \<le> 2"
    by (simp add: node_count_def all_nodes_def plain_task_def)
  have e: "node_count [plain_task 1 [2], plain_task 2 [1]] = 2"
    by (simp add: node_count_def all_nodes_def plain_task_def)
  from detect_cycles_terminates[OF n] e n show ?thesis by auto
qed

text \<open>
  C10, as first stated, bounds the number of calls by the number of distinct task
  numbers. A task that references a number no task carries gives one call more: the
  single task 1 with precondition 7 makes two calls for one task number.
\<close>

theorem dfs_calls_exceed_task_numbers:
  "detect_cycles_run 2 [plain_task 1 [7]] =
     Inr \<lparr> visited = {1, 7}, rec_stack = {}, cycles = [], path = [], calls = 2 \<rparr> \<and>
   card (num ` set [plain_task 1 [7]]) = 1 \<and>
   \<not> calls (projr (detect_cycles_run 2 [plain_task 1 [7]])) \<le> card (num ` set [plain_task 1 [7]])"
proof -
  have a: "detect_cycles_run 2 [plain_task 1 [7]] =
     Inr \<lparr> visited = {1, 7}, rec_stack = {}, cycles = [], path = [], calls = 2 \<rparr>"
    by code_simp
  show ?thesis unfolding a by simp
qed

end
